theory Spec2Isabelle
  imports Complex_Main "HOL-Library.Monad_Syntax" "HOL-Library.Multiset"
begin

section \<open>Double-precision arithmetic as a parameter\<close>

text \<open>
  The program computes with C++ \<^verbatim>\<open>double\<close>. Its arithmetic is not fixed here: every
  function of the model takes the operations it uses on doubles as a record \<open>ops\<close>, and the
  theorems hold for every such record (where a theorem needs a law of IEEE-754 arithmetic,
  the law is a named hypothesis). The fields are the operations that occur in
  \<^verbatim>\<open>src/main.cpp\<close>:
  \<^item> \<open>fadd\<close>, \<open>fsub\<close>, \<open>fmul\<close>, \<open>fdiv\<close>: \<^verbatim>\<open>+ - * /\<close> on doubles;
  \<^item> \<open>fless a b\<close>: \<^verbatim>\<open>a < b\<close> (and \<^verbatim>\<open>a > b\<close> is \<open>fless b a\<close>);
  \<^item> \<open>feq a b\<close>: \<^verbatim>\<open>a == b\<close> (and \<^verbatim>\<open>a != b\<close> is its negation);
  \<^item> \<open>fisnan\<close>: \<^verbatim>\<open>std::isnan\<close>; \<open>fnan\<close>: \<^verbatim>\<open>numeric_limits<double>::quiet_NaN()\<close>;
  \<^item> \<open>fofint\<close>: the double of an integer: the conversion \<^verbatim>\<open>(double)k\<close> of an
    \<^verbatim>\<open>int\<close>, and the integer-valued literals \<^verbatim>\<open>0.0\<close>, \<^verbatim>\<open>0\<close>, \<^verbatim>\<open>10000.0\<close> and
    \<^verbatim>\<open>-1e18\<close>;
  \<^item> \<open>ftoint\<close>: the conversion \<^verbatim>\<open>(int)x\<close>. Where the truncated value does not fit an
    \<^verbatim>\<open>int\<close> the C++ standard leaves the result open; the model takes whatever the
    platform returns as the value of this field, and no theorem depends on it.

  C++ \<^verbatim>\<open>int\<close> values are modelled as \<open>int\<close>: the counters and indices of the program
  stay between \<open>-1\<close> and the length of the price series, which is assumed to fit an
  \<^verbatim>\<open>int\<close> (the source casts \<^verbatim>\<open>p.size()\<close> to \<^verbatim>\<open>int\<close>).
\<close>

record 'f fops =
  fadd :: "'f \<Rightarrow> 'f \<Rightarrow> 'f"
  fsub :: "'f \<Rightarrow> 'f \<Rightarrow> 'f"
  fmul :: "'f \<Rightarrow> 'f \<Rightarrow> 'f"
  fdiv :: "'f \<Rightarrow> 'f \<Rightarrow> 'f"
  fless :: "'f \<Rightarrow> 'f \<Rightarrow> bool"
  feq :: "'f \<Rightarrow> 'f \<Rightarrow> bool"
  fisnan :: "'f \<Rightarrow> bool"
  fnan :: "'f"
  fofint :: "int \<Rightarrow> 'f"
  ftoint :: "'f \<Rightarrow> int"

subsection \<open>A concrete arithmetic for evaluation\<close>

text \<open>
  \<open>xdouble\<close> is an idealised double: exact rationals, the two infinities and NaN, with the
  IEEE-754 rules for the special values (an invalid operation gives NaN, NaN propagates,
  every ordered comparison with NaN is false, NaN is not equal to itself). It has no
  rounding and a single zero. It is used only to run the model on concrete inputs.
\<close>

datatype xdouble = Fin rat | PInf | NInf | NaN

fun xneg :: "xdouble \<Rightarrow> xdouble" where
  "xneg (Fin a) = Fin (- a)"
| "xneg PInf = NInf"
| "xneg NInf = PInf"
| "xneg NaN = NaN"

fun xadd :: "xdouble \<Rightarrow> xdouble \<Rightarrow> xdouble" where
  "xadd NaN y = NaN"
| "xadd x NaN = NaN"
| "xadd (Fin a) (Fin b) = Fin (a + b)"
| "xadd (Fin a) y = y"
| "xadd x (Fin b) = x"
| "xadd PInf PInf = PInf"
| "xadd NInf NInf = NInf"
| "xadd PInf NInf = NaN"
| "xadd NInf PInf = NaN"

definition xsub :: "xdouble \<Rightarrow> xdouble \<Rightarrow> xdouble" where
  "xsub x y = xadd x (xneg y)"

fun xsign :: "xdouble \<Rightarrow> int" where
  "xsign (Fin a) = (if a < 0 then - 1 else if a = 0 then 0 else 1)"
| "xsign PInf = 1"
| "xsign NInf = - 1"
| "xsign NaN = 0"

definition xsigned_inf :: "int \<Rightarrow> xdouble" where
  "xsigned_inf k = (if k = 0 then NaN else if 0 < k then PInf else NInf)"

fun xmul :: "xdouble \<Rightarrow> xdouble \<Rightarrow> xdouble" where
  "xmul NaN y = NaN"
| "xmul x NaN = NaN"
| "xmul (Fin a) (Fin b) = Fin (a * b)"
| "xmul x y = xsigned_inf (xsign x * xsign y)"

fun xdiv :: "xdouble \<Rightarrow> xdouble \<Rightarrow> xdouble" where
  "xdiv NaN y = NaN"
| "xdiv x NaN = NaN"
| "xdiv (Fin a) (Fin b) = (if b = 0 then xsigned_inf (xsign (Fin a)) else Fin (a / b))"
| "xdiv (Fin a) y = Fin 0"
| "xdiv x (Fin b) = (if b < 0 then xneg x else x)"
| "xdiv x y = NaN"

fun xless :: "xdouble \<Rightarrow> xdouble \<Rightarrow> bool" where
  "xless NaN y = False"
| "xless x NaN = False"
| "xless (Fin a) (Fin b) = (a < b)"
| "xless NInf y = (y \<noteq> NInf)"
| "xless x PInf = (x \<noteq> PInf)"
| "xless x y = False"

definition xeq :: "xdouble \<Rightarrow> xdouble \<Rightarrow> bool" where
  "xeq x y = (x = y \<and> x \<noteq> NaN)"

definition xisnan :: "xdouble \<Rightarrow> bool" where
  "xisnan x = (x = NaN)"

definition xofint :: "int \<Rightarrow> xdouble" where
  "xofint k = Fin (of_int k)"

text \<open>
  Truncation towards zero; outside the range of a 32-bit \<^verbatim>\<open>int\<close> (and for the
  infinities and NaN) the value x86 hardware returns, \<open>- 2 ^ 31\<close>.
\<close>

fun xtoint :: "xdouble \<Rightarrow> int" where
  "xtoint (Fin a) =
     (let t = (if 0 \<le> a then \<lfloor>a\<rfloor> else \<lceil>a\<rceil>)
      in if - 2147483648 \<le> t \<and> t \<le> 2147483647 then t else - 2147483648)"
| "xtoint x = - 2147483648"

definition xops :: "xdouble fops" where
  "xops = \<lparr>fadd = xadd, fsub = xsub, fmul = xmul, fdiv = xdiv, fless = xless, feq = xeq,
           fisnan = xisnan, fnan = NaN, fofint = xofint, ftoint = xtoint\<rparr>"

section \<open>Vectors\<close>

text \<open>
  \<^verbatim>\<open>std::vector::operator[]\<close> outside the vector is undefined behaviour. The model makes
  it a failure: every function that indexes a vector returns an \<open>option\<close>, and \<open>None\<close>
  means that an access was out of range.
\<close>

definition vget :: "'a list \<Rightarrow> int \<Rightarrow> 'a option" where
  "vget v i = (if 0 \<le> i \<and> i < int (length v) then Some (v ! nat i) else None)"

definition vset :: "'a list \<Rightarrow> int \<Rightarrow> 'a \<Rightarrow> 'a list option" where
  "vset v i x = (if 0 \<le> i \<and> i < int (length v) then Some (v[nat i := x]) else None)"

section \<open>calcSMA\<close>

text \<open>The loop \<^verbatim>\<open>for (int i = 0; i < n; i++) sum += p[i];\<close>, entered at \<open>i\<close>.\<close>

function calcSMA_sum :: "'f fops \<Rightarrow> 'f list \<Rightarrow> int \<Rightarrow> int \<Rightarrow> 'f \<Rightarrow> 'f option" where
  "calcSMA_sum ops p n i sm =
     (if i < n then do {
        x \<leftarrow> vget p i;
        calcSMA_sum ops p n (i + 1) (fadd ops sm x)
      } else Some sm)"
  by pat_completeness auto
termination
  by (relation "measure (\<lambda>(ops, p, n, i, sm). nat (n - i))") auto

declare calcSMA_sum.simps [simp del]

text \<open>
  The loop \<^verbatim>\<open>for (int i = n; i < N; i++) { sum += p[i] - p[i - n]; sma[i] = sum / n; }\<close>,
  entered at \<open>i\<close>.
\<close>

function calcSMA_roll ::
  "'f fops \<Rightarrow> 'f list \<Rightarrow> int \<Rightarrow> int \<Rightarrow> int \<Rightarrow> 'f \<Rightarrow> 'f list \<Rightarrow> 'f list option" where
  "calcSMA_roll ops p n N i sm sma =
     (if i < N then do {
        a \<leftarrow> vget p i;
        b \<leftarrow> vget p (i - n);
        let sm' = fadd ops sm (fsub ops a b);
        sma' \<leftarrow> vset sma i (fdiv ops sm' (fofint ops n));
        calcSMA_roll ops p n N (i + 1) sm' sma'
      } else Some sma)"
  by pat_completeness auto
termination
  by (relation "measure (\<lambda>(ops, p, n, N, i, sm, sma). nat (N - i))") auto

declare calcSMA_roll.simps [simp del]

definition calcSMA :: "'f fops \<Rightarrow> 'f list \<Rightarrow> int \<Rightarrow> 'f list option" where
  "calcSMA ops p n =
     (let N = int (length p);
          sma = replicate (nat N) (fnan ops)
      in if n < 1 \<or> n > N then Some sma
         else do {
           sm \<leftarrow> calcSMA_sum ops p n 0 (fofint ops 0);
           sma1 \<leftarrow> vset sma (n - 1) (fdiv ops sm (fofint ops n));
           calcSMA_roll ops p n N n sm sma1
         })"


text \<open>
  The specification's description of the output, in its own words: position \<open>window - 1\<close>
  holds the mean of the first \<open>window\<close> elements, and each later position \<open>i\<close> is obtained
  from the previous running sum by adding \<open>prices[i]\<close> and subtracting
  \<open>prices[i - window]\<close>. \<open>running_sum ops p n i\<close> is that running sum at position \<open>i\<close>.
\<close>

definition first_sum :: "'f fops \<Rightarrow> 'f list \<Rightarrow> nat \<Rightarrow> 'f" where
  "first_sum ops p n = foldl (fadd ops) (fofint ops 0) (take n p)"

fun running_sum :: "'f fops \<Rightarrow> 'f list \<Rightarrow> nat \<Rightarrow> nat \<Rightarrow> 'f" where
  "running_sum ops p n 0 = first_sum ops p n"
| "running_sum ops p n (Suc i) =
     (if Suc i < n then first_sum ops p n
      else fadd ops (running_sum ops p n i) (fsub ops (p ! Suc i) (p ! (Suc i - n))))"

section \<open>simulateWithCapitalRange\<close>

record 'f SimResult =
  finalCapital :: "'f"
  tradeCount :: int

text \<open>The local variables \<^verbatim>\<open>cash\<close>, \<^verbatim>\<open>shares\<close> and \<^verbatim>\<open>trades\<close> of the simulation.\<close>

record 'f sim_state =
  cash :: "'f"
  shares :: int
  trades :: int

definition INITIAL :: "'f fops \<Rightarrow> 'f" where
  "INITIAL ops = fofint ops 10000"

text \<open>
  The three adjustments of the index range, in the order of the source:
  \<^verbatim>\<open>if (startIdx < 0) startIdx = 0;\<close>, \<^verbatim>\<open>if (endIdx >= N) endIdx = N - 1;\<close> and, after
  the test for an empty range, \<^verbatim>\<open>if (startIdx < 1) startIdx = 1;\<close>.
\<close>

definition clamp_start :: "int \<Rightarrow> int" where
  "clamp_start startIdx = (if startIdx < 0 then 0 else startIdx)"

definition clamp_end :: "int \<Rightarrow> int \<Rightarrow> int" where
  "clamp_end N endIdx = (if endIdx \<ge> N then N - 1 else endIdx)"

definition first_day :: "int \<Rightarrow> int" where
  "first_day startIdx = (if startIdx < 1 then 1 else startIdx)"

text \<open>
  One iteration of the loop over \<open>i\<close>, for the state \<open>st\<close> at its start; \<open>startIdx\<close> is the
  start index after all adjustments, which the body compares \<open>i\<close> with.
\<close>

definition sim_step ::
  "'f fops \<Rightarrow> 'f list \<Rightarrow> 'f list \<Rightarrow> 'f list \<Rightarrow> int \<Rightarrow> int \<Rightarrow> 'f sim_state \<Rightarrow> 'f sim_state option"
  where
  "sim_step ops prices smaS smaL startIdx i st = do {
     sPrev \<leftarrow> vget smaS (i - 1);
     lPrev \<leftarrow> vget smaL (i - 1);
     let dPrev = fsub ops sPrev lPrev;
     sNow \<leftarrow> vget smaS i;
     lNow \<leftarrow> vget smaL i;
     let dNow = fsub ops sNow lNow;
     if fisnan ops dPrev \<or> fisnan ops dNow then Some st
     else
       let isFirstDay = (i = startIdx) in
       if \<not> isFirstDay \<and> shares st = 0 \<and> fless ops dPrev (fofint ops 0)
            \<and> fless ops (fofint ops 0) dNow
       then do {
         price \<leftarrow> vget prices i;
         let buyShares = ftoint ops (fdiv ops (cash st) price);
         if buyShares > 0
         then Some \<lparr>cash = fsub ops (cash st) (fmul ops (fofint ops buyShares) price),
                    shares = shares st + buyShares,
                    trades = trades st + 1\<rparr>
         else Some st
       }
       else if shares st > 0 \<and> fless ops (fofint ops 0) dPrev \<and> fless ops dNow (fofint ops 0)
       then do {
         price \<leftarrow> vget prices i;
         Some \<lparr>cash = fadd ops (cash st) (fmul ops (fofint ops (shares st)) price),
               shares = 0,
               trades = trades st + 1\<rparr>
       }
       else Some st
   }"

text \<open>The loop \<^verbatim>\<open>for (int i = startIdx; i <= endIdx; ++i)\<close>, entered at \<open>i\<close>.\<close>

function sim_loop ::
  "'f fops \<Rightarrow> 'f list \<Rightarrow> 'f list \<Rightarrow> 'f list \<Rightarrow> int \<Rightarrow> int \<Rightarrow> int \<Rightarrow> 'f sim_state
    \<Rightarrow> 'f sim_state option" where
  "sim_loop ops prices smaS smaL startIdx endIdx i st =
     (if i \<le> endIdx then do {
        st' \<leftarrow> sim_step ops prices smaS smaL startIdx i st;
        sim_loop ops prices smaS smaL startIdx endIdx (i + 1) st'
      } else Some st)"
  by pat_completeness auto
termination
  by (relation "measure (\<lambda>(ops, prices, smaS, smaL, startIdx, endIdx, i, st). nat (endIdx + 1 - i))")
    auto

declare sim_loop.simps [simp del]

text \<open>The forced sale after the loop, and the returned pair.\<close>

definition liquidate :: "'f fops \<Rightarrow> 'f list \<Rightarrow> int \<Rightarrow> 'f sim_state \<Rightarrow> 'f SimResult option" where
  "liquidate ops prices endIdx st =
     (if shares st > 0 then do {
        price \<leftarrow> vget prices endIdx;
        Some \<lparr>finalCapital = fadd ops (cash st) (fmul ops (fofint ops (shares st)) price),
              tradeCount = trades st + 1\<rparr>
      }
      else Some \<lparr>finalCapital = cash st, tradeCount = trades st\<rparr>)"

definition simulateWithCapitalRange ::
  "'f fops \<Rightarrow> 'f list \<Rightarrow> 'f list \<Rightarrow> 'f list \<Rightarrow> int \<Rightarrow> int \<Rightarrow> 'f SimResult option" where
  "simulateWithCapitalRange ops prices smaS smaL startIdx endIdx =
     (let N = int (length prices) in
      if N = 0 then Some \<lparr>finalCapital = INITIAL ops, tradeCount = 0\<rparr>
      else
        let startIdx = clamp_start startIdx;
            endIdx = clamp_end N endIdx
        in if startIdx \<ge> endIdx then Some \<lparr>finalCapital = INITIAL ops, tradeCount = 0\<rparr>
           else
             let startIdx = first_day startIdx in do {
               st \<leftarrow> sim_loop ops prices smaS smaL startIdx endIdx startIdx
                       \<lparr>cash = INITIAL ops, shares = 0, trades = 0\<rparr>;
               liquidate ops prices endIdx st
             })"

subsection \<open>Counting the purchases\<close>

text \<open>
  The only assignment that makes \<^verbatim>\<open>shares\<close> positive is the purchase, which requires
  \<^verbatim>\<open>shares == 0\<close>; so an iteration bought exactly when it starts flat and ends holding.
  \<open>sim_loop_buys\<close> runs the same iterations as \<open>sim_loop\<close> and counts those.
\<close>

function sim_loop_buys ::
  "'f fops \<Rightarrow> 'f list \<Rightarrow> 'f list \<Rightarrow> 'f list \<Rightarrow> int \<Rightarrow> int \<Rightarrow> int \<Rightarrow> 'f sim_state \<Rightarrow> nat
    \<Rightarrow> ('f sim_state \<times> nat) option" where
  "sim_loop_buys ops prices smaS smaL startIdx endIdx i st b =
     (if i \<le> endIdx then do {
        st' \<leftarrow> sim_step ops prices smaS smaL startIdx i st;
        sim_loop_buys ops prices smaS smaL startIdx endIdx (i + 1) st'
          (if shares st = 0 \<and> 0 < shares st' then Suc b else b)
      } else Some (st, b))"
  by pat_completeness auto
termination
  by (relation
      "measure (\<lambda>(ops, prices, smaS, smaL, startIdx, endIdx, i, st, b). nat (endIdx + 1 - i))")
    auto

declare sim_loop_buys.simps [simp del]

definition simulate_buys ::
  "'f fops \<Rightarrow> 'f list \<Rightarrow> 'f list \<Rightarrow> 'f list \<Rightarrow> int \<Rightarrow> int \<Rightarrow> nat option" where
  "simulate_buys ops prices smaS smaL startIdx endIdx =
     (let N = int (length prices) in
      if N = 0 \<or> clamp_start startIdx \<ge> clamp_end N endIdx then Some 0
      else map_option snd
             (sim_loop_buys ops prices smaS smaL (first_day (clamp_start startIdx))
                (clamp_end N endIdx) (first_day (clamp_start startIdx))
                \<lparr>cash = INITIAL ops, shares = 0, trades = 0\<rparr> 0))"

text \<open>
  The invariant of the loop that relates the counters: the position is never short, and
  the trades counted so far are the purchases and the sales, one sale fewer than
  purchases while shares are held.
\<close>

definition trade_inv :: "'f sim_state \<Rightarrow> nat \<Rightarrow> bool" where
  "trade_inv st b \<longleftrightarrow>
     0 \<le> shares st \<and> trades st + (if 0 < shares st then 1 else 0) = 2 * int b"

subsection \<open>A sample series\<close>

text \<open>
  Eight prices with a dip at index 4 and a rise after it, and their moving averages of
  windows 2 and 4 in the arithmetic \<open>xops\<close>. The short average crosses the long one
  upwards at index 6.
\<close>

definition ex_prices :: "xdouble list" where
  "ex_prices = [Fin 10, Fin 10, Fin 10, Fin 10, Fin 5, Fin 10, Fin 20, Fin 30]"

definition ex_sma2 :: "xdouble list" where
  "ex_sma2 = [NaN, Fin 10, Fin 10, Fin 10, Fin (15 / 2), Fin (15 / 2), Fin 15, Fin 25]"

definition ex_sma4 :: "xdouble list" where
  "ex_sma4 = [NaN, NaN, NaN, Fin 10, Fin (35 / 4), Fin (35 / 4), Fin (45 / 4), Fin (65 / 4)]"

definition st0 :: "'f fops \<Rightarrow> 'f sim_state" where
  "st0 ops = \<lparr>cash = INITIAL ops, shares = 0, trades = 0\<rparr>"

section \<open>bruteForceAndAppend: the grid and the ranking\<close>

text \<open>
  The fields \<^verbatim>\<open>s\<close>, \<^verbatim>\<open>l\<close>, \<^verbatim>\<open>finalCapital\<close> and \<^verbatim>\<open>trades\<close> of
  \<^verbatim>\<open>struct BruteResult\<close>.
\<close>

record 'f BruteResult =
  br_s :: int
  br_l :: int
  br_finalCapital :: "'f"
  br_trades :: int

definition MAXN :: int where
  "MAXN = 256"

text \<open>The loop \<^verbatim>\<open>for (int n = 1; n <= MAXN; n++) allSMA[n] = calcSMA(prices, n);\<close>.\<close>

function allSMA_loop ::
  "'f fops \<Rightarrow> 'f list \<Rightarrow> int \<Rightarrow> 'f list list \<Rightarrow> 'f list list option" where
  "allSMA_loop ops prices n allSMA =
     (if n \<le> MAXN then do {
        sma \<leftarrow> calcSMA ops prices n;
        allSMA' \<leftarrow> vset allSMA n sma;
        allSMA_loop ops prices (n + 1) allSMA'
      } else Some allSMA)"
  by pat_completeness auto
termination
  by (relation "measure (\<lambda>(ops, prices, n, allSMA). nat (MAXN + 1 - n))") auto

declare allSMA_loop.simps [simp del]

text \<open>
  The variables \<^verbatim>\<open>bestCapital\<close>, \<^verbatim>\<open>bestS\<close>, \<^verbatim>\<open>bestL\<close> and \<^verbatim>\<open>results\<close> of the
  double loop.
\<close>

record 'f grid_state =
  bestCapital :: "'f"
  bestS :: int
  bestL :: int
  results :: "'f BruteResult list"

text \<open>The body of the inner loop, for the pair \<open>(s, l)\<close>.\<close>

definition grid_cell ::
  "'f fops \<Rightarrow> 'f list \<Rightarrow> 'f list list \<Rightarrow> int \<Rightarrow> int \<Rightarrow> int \<Rightarrow> int \<Rightarrow> 'f grid_state
    \<Rightarrow> 'f grid_state option" where
  "grid_cell ops prices allSMA startIdx endIdx s l g = do {
     smaS \<leftarrow> vget allSMA s;
     smaL \<leftarrow> vget allSMA l;
     sr \<leftarrow> simulateWithCapitalRange ops prices smaS smaL startIdx endIdx;
     let g = g\<lparr>results := results g @
                [\<lparr>br_s = s, br_l = l, br_finalCapital = finalCapital sr,
                  br_trades = tradeCount sr\<rparr>]\<rparr>;
     Some (if fless ops (bestCapital g) (finalCapital sr)
           then g\<lparr>bestCapital := finalCapital sr, bestS := s, bestL := l\<rparr>
           else g)
   }"

function grid_inner ::
  "'f fops \<Rightarrow> 'f list \<Rightarrow> 'f list list \<Rightarrow> int \<Rightarrow> int \<Rightarrow> int \<Rightarrow> int \<Rightarrow> 'f grid_state
    \<Rightarrow> 'f grid_state option" where
  "grid_inner ops prices allSMA startIdx endIdx s l g =
     (if l \<le> MAXN then do {
        g' \<leftarrow> grid_cell ops prices allSMA startIdx endIdx s l g;
        grid_inner ops prices allSMA startIdx endIdx s (l + 1) g'
      } else Some g)"
  by pat_completeness auto
termination
  by (relation
      "measure (\<lambda>(ops, prices, allSMA, startIdx, endIdx, s, l, g). nat (MAXN + 1 - l))")
    auto

declare grid_inner.simps [simp del]

function grid_outer ::
  "'f fops \<Rightarrow> 'f list \<Rightarrow> 'f list list \<Rightarrow> int \<Rightarrow> int \<Rightarrow> int \<Rightarrow> 'f grid_state
    \<Rightarrow> 'f grid_state option" where
  "grid_outer ops prices allSMA startIdx endIdx s g =
     (if s \<le> MAXN then do {
        g' \<leftarrow> grid_inner ops prices allSMA startIdx endIdx s 1 g;
        grid_outer ops prices allSMA startIdx endIdx (s + 1) g'
      } else Some g)"
  by pat_completeness auto
termination
  by (relation "measure (\<lambda>(ops, prices, allSMA, startIdx, endIdx, s, g). nat (MAXN + 1 - s))")
    auto

declare grid_outer.simps [simp del]

text \<open>
  Lines 243 to 273 of \<^verbatim>\<open>bruteForceAndAppend\<close>: the table of moving averages and the
  double loop, up to the point where the results are sorted (\<^verbatim>\<open>results.reserve\<close> does
  not change the contents of the vector and has no counterpart here). The printing and
  the writing of the file that follow are not modelled.
\<close>

definition bruteForce_grid ::
  "'f fops \<Rightarrow> 'f list \<Rightarrow> int \<Rightarrow> int \<Rightarrow> 'f grid_state option" where
  "bruteForce_grid ops prices startIdx endIdx = do {
     allSMA \<leftarrow> allSMA_loop ops prices 1 (replicate (nat (MAXN + 1)) []);
     grid_outer ops prices allSMA startIdx endIdx 1
       \<lparr>bestCapital = fofint ops (- (10 ^ 18)), bestS = - 1, bestL = - 1, results = []\<rparr>
   }"

text \<open>The comparator passed to \<^verbatim>\<open>std::sort\<close>: \<open>True\<close> when \<open>a\<close> is to come before \<open>b\<close>.\<close>

definition rank_cmp :: "'f fops \<Rightarrow> 'f BruteResult \<Rightarrow> 'f BruteResult \<Rightarrow> bool" where
  "rank_cmp ops a b =
     (if \<not> feq ops (br_finalCapital a) (br_finalCapital b)
      then fless ops (br_finalCapital b) (br_finalCapital a)
      else
        let da = \<bar>br_s a - br_l a\<bar>;
            db = \<bar>br_s b - br_l b\<bar>
        in if da \<noteq> db then da > db
           else if br_s a \<noteq> br_s b then br_s a < br_s b
           else br_l a < br_l b)"

text \<open>
  Three notions for stating what the double loop collects. \<open>sma_table ops prices allSMA n\<close>:
  the table has \<open>MAXN + 1\<close> rows and the rows \<open>1, \<dots>, n - 1\<close> hold the moving averages of
  those windows. \<open>cell_result\<close>: the capital and the trade count of a result are those of
  the simulation with the moving averages of its two periods. \<open>pair_of\<close>: the pair of
  periods of a result.
\<close>

definition sma_table :: "'f fops \<Rightarrow> 'f list \<Rightarrow> 'f list list \<Rightarrow> int \<Rightarrow> bool" where
  "sma_table ops prices allSMA n \<longleftrightarrow>
     length allSMA = nat (MAXN + 1) \<and>
     (\<forall>k. 1 \<le> k \<and> k < n \<longrightarrow> calcSMA ops prices k = Some (allSMA ! nat k))"

definition cell_result :: "'f fops \<Rightarrow> 'f list \<Rightarrow> int \<Rightarrow> int \<Rightarrow> 'f BruteResult \<Rightarrow> bool" where
  "cell_result ops prices startIdx endIdx r \<longleftrightarrow>
     (\<exists>smaS smaL sr. calcSMA ops prices (br_s r) = Some smaS \<and>
        calcSMA ops prices (br_l r) = Some smaL \<and>
        simulateWithCapitalRange ops prices smaS smaL startIdx endIdx = Some sr \<and>
        br_finalCapital r = finalCapital sr \<and> br_trades r = tradeCount sr)"

definition pair_of :: "'f BruteResult \<Rightarrow> int \<times> int" where
  "pair_of r = (br_s r, br_l r)"

text \<open>
  What \<^verbatim>\<open>std::sort\<close> guarantees of its output for the comparator: no element is to
  come before an element that precedes it.
\<close>

definition rank_sorted :: "'f fops \<Rightarrow> 'f BruteResult list \<Rightarrow> bool" where
  "rank_sorted ops xs = sorted_wrt (\<lambda>a b. \<not> rank_cmp ops b a) xs"

text \<open>
  The second to fourth keys of the comparator: the wider spread, then the smaller \<open>s\<close>,
  then the smaller \<open>l\<close>.
\<close>

definition spread_before :: "'f BruteResult \<Rightarrow> 'f BruteResult \<Rightarrow> bool" where
  "spread_before a b \<longleftrightarrow>
     \<bar>br_s b - br_l b\<bar> < \<bar>br_s a - br_l a\<bar> \<or>
     \<bar>br_s a - br_l a\<bar> = \<bar>br_s b - br_l b\<bar> \<and>
       (br_s a < br_s b \<or> br_s a = br_s b \<and> br_l a < br_l b)"

text \<open>
  The series \<open>ex_prices\<close> with a NaN as its last price, and the two results that the grid
  records for it over the range 0 to 7 at the periods \<open>(2, 4)\<close> and \<open>(1, 3)\<close>.
\<close>

definition nan_prices :: "xdouble list" where
  "nan_prices = [Fin 10, Fin 10, Fin 10, Fin 10, Fin 5, Fin 10, Fin 20, NaN]"

definition nan_result_2_4 :: "xdouble BruteResult" where
  "nan_result_2_4 = \<lparr>br_s = 2, br_l = 4, br_finalCapital = NaN, br_trades = 2\<rparr>"

definition nan_result_1_3 :: "xdouble BruteResult" where
  "nan_result_1_3 = \<lparr>br_s = 1, br_l = 3, br_finalCapital = NaN, br_trades = 2\<rparr>"

text \<open>Two results of equal capital: periods \<open>(1, 2)\<close> and \<open>(1, 5)\<close>.\<close>

definition tie_narrow :: "xdouble BruteResult" where
  "tie_narrow = \<lparr>br_s = 1, br_l = 2, br_finalCapital = Fin 10000, br_trades = 0\<rparr>"

definition tie_wide :: "xdouble BruteResult" where
  "tie_wide = \<lparr>br_s = 1, br_l = 5, br_finalCapital = Fin 10000, br_trades = 0\<rparr>"

section \<open>Laws of IEEE-754 arithmetic used as hypotheses\<close>

text \<open>
  On doubles that are not NaN, \<^verbatim>\<open>==\<close> is an equivalence, \<^verbatim>\<open><\<close> is a strict order
  compatible with it, and any two values are comparable.
\<close>

definition float_order :: "'f fops \<Rightarrow> bool" where
  "float_order ops \<longleftrightarrow>
     (\<forall>x y z. \<not> fisnan ops x \<and> \<not> fisnan ops y \<and> \<not> fisnan ops z \<longrightarrow>
        feq ops x x \<and>
        (feq ops x y \<longrightarrow> feq ops y x) \<and>
        (feq ops x y \<and> feq ops y z \<longrightarrow> feq ops x z) \<and>
        (fless ops x y \<or> feq ops x y \<or> fless ops y x) \<and>
        \<not> (fless ops x y \<and> fless ops y x) \<and>
        \<not> (fless ops x y \<and> feq ops x y) \<and>
        (fless ops x y \<and> fless ops y z \<longrightarrow> fless ops x z) \<and>
        (feq ops x y \<and> fless ops y z \<longrightarrow> fless ops x z) \<and>
        (fless ops x y \<and> feq ops y z \<longrightarrow> fless ops x z))"

text \<open>
  The quiet NaN is a NaN, a sum or difference with a NaN operand and a quotient with a
  NaN numerator are NaN, and \<^verbatim>\<open><\<close> is asymmetric.
\<close>

definition float_nan_laws :: "'f fops \<Rightarrow> bool" where
  "float_nan_laws ops \<longleftrightarrow>
     fisnan ops (fnan ops) \<and>
     (\<forall>x y. fisnan ops x \<or> fisnan ops y \<longrightarrow>
        fisnan ops (fadd ops x y) \<and> fisnan ops (fsub ops x y)) \<and>
     (\<forall>x y. fisnan ops x \<longrightarrow> fisnan ops (fdiv ops x y)) \<and>
     (\<forall>x y. \<not> (fless ops x y \<and> fless ops y x))"

text \<open>
  What the arithmetic does with a constant price \<open>c\<close>. For a finite \<open>c\<close> the difference
  \<open>c - c\<close> is a zero, and adding it to a sum \<open>0.0 + c + \<dots> + c\<close> (which is never the
  negative zero) returns that sum; for an infinite or NaN \<open>c\<close> the difference is NaN.
\<close>

definition flat_sum :: "'f fops \<Rightarrow> 'f \<Rightarrow> nat \<Rightarrow> 'f" where
  "flat_sum ops c n = foldl (fadd ops) (fofint ops 0) (replicate n c)"

definition flat_price :: "'f fops \<Rightarrow> 'f \<Rightarrow> bool" where
  "flat_price ops c \<longleftrightarrow>
     (\<forall>n. 0 < n \<longrightarrow> fadd ops (flat_sum ops c n) (fsub ops c c) = flat_sum ops c n) \<or>
     fisnan ops (fsub ops c c)"

text \<open>
  A series is steady when any two neighbouring entries are equal unless one of them is
  NaN.
\<close>

definition steady :: "'f fops \<Rightarrow> 'f list \<Rightarrow> bool" where
  "steady ops sma \<longleftrightarrow>
     (\<forall>i. Suc i < length sma \<longrightarrow>
        fisnan ops (sma ! i) \<or> fisnan ops (sma ! Suc i) \<or> sma ! i = sma ! Suc i)"

section \<open>Properties of calcSMA\<close>

lemma vget_Some: "0 \<le> i \<Longrightarrow> i < int (length v) \<Longrightarrow> vget v i = Some (v ! nat i)"
  by (simp add: vget_def)

lemma vset_Some: "0 \<le> i \<Longrightarrow> i < int (length v) \<Longrightarrow> vset v i x = Some (v[nat i := x])"
  by (simp add: vset_def)

text \<open>The first loop adds the elements \<open>i, \<dots>, n - 1\<close> to the sum, from left to right.\<close>

lemma calcSMA_sum_foldl:
  "0 \<le> i \<Longrightarrow> n \<le> int (length p) \<Longrightarrow>
   calcSMA_sum ops p n i sm = Some (foldl (fadd ops) sm (take (nat (n - i)) (drop (nat i) p)))"
proof (induction ops p n i sm rule: calcSMA_sum.induct)
  case (1 ops p n i sm)
  note IH = "1.IH" and prems = "1.prems"
  show ?case
  proof (cases "i < n")
    case True
    have g: "vget p i = Some (p ! nat i)"
      using True prems by (simp add: vget_Some)
    have d: "drop (nat i) p = p ! nat i # drop (nat (i + 1)) p"
      using True prems by (simp add: Cons_nth_drop_Suc nat_add_distrib)
    have t: "nat (n - i) = Suc (nat (n - (i + 1)))"
      using True by simp
    have "calcSMA_sum ops p n i sm = calcSMA_sum ops p n (i + 1) (fadd ops sm (p ! nat i))"
      using True g by (subst calcSMA_sum.simps) simp
    also have "\<dots> = Some (foldl (fadd ops) (fadd ops sm (p ! nat i))
                        (take (nat (n - (i + 1))) (drop (nat (i + 1)) p)))"
      using IH[OF True g] prems by simp
    finally show ?thesis
      by (simp add: d t)
  next
    case False
    then show ?thesis
      by (subst calcSMA_sum.simps) simp
  qed
qed

lemma calcSMA_sum_first:
  "0 \<le> n \<Longrightarrow> n \<le> int (length p) \<Longrightarrow>
   calcSMA_sum ops p n 0 (fofint ops 0) = Some (first_sum ops p (nat n))"
  by (simp add: calcSMA_sum_foldl first_sum_def)

text \<open>
  The second loop, entered at \<open>i\<close> with the running sum of position \<open>i - 1\<close>: it stays inside
  both vectors, keeps the positions below \<open>i\<close> and writes the quotient of the running sum
  at every position from \<open>i\<close> on.
\<close>

lemma calcSMA_roll_spec:
  assumes "1 \<le> n" "n \<le> i" "i \<le> N" "N = int (length p)" "length sma = length p"
    and "sm = running_sum ops p (nat n) (nat (i - 1))"
  shows "\<exists>r. calcSMA_roll ops p n N i sm sma = Some r \<and> length r = length p \<and>
           (\<forall>j. j < nat i \<longrightarrow> r ! j = sma ! j) \<and>
           (\<forall>j. nat i \<le> j \<and> j < length p \<longrightarrow>
                r ! j = fdiv ops (running_sum ops p (nat n) j) (fofint ops n))"
  using assms
proof (induction ops p n N i sm sma rule: calcSMA_roll.induct)
  case (1 ops p n N i sm sma)
  note IH = "1.IH" and prems = "1.prems"
  show ?case
  proof (cases "i < N")
    case False
    then have "calcSMA_roll ops p n N i sm sma = Some sma"
      by (subst calcSMA_roll.simps) simp
    moreover have "nat i = length p"
      using False prems by simp
    ultimately show ?thesis
      using prems(5) by auto
  next
    case True
    define a where "a = p ! nat i"
    define b where "b = p ! nat (i - n)"
    define sm' where "sm' = fadd ops sm (fsub ops a b)"
    define sma' where "sma' = sma[nat i := fdiv ops sm' (fofint ops n)]"
    have ga: "vget p i = Some a"
      using True prems by (simp add: vget_Some a_def)
    have gb: "vget p (i - n) = Some b"
      using True prems by (simp add: vget_Some b_def)
    have st: "vset sma i (fdiv ops sm' (fofint ops n)) = Some sma'"
      using True prems by (simp add: vset_Some sma'_def)
    have unf: "calcSMA_roll ops p n N i sm sma = calcSMA_roll ops p n N (i + 1) sm' sma'"
      using True ga gb st by (subst calcSMA_roll.simps) (simp add: sm'_def Let_def)
    have sm'_eq: "sm' = running_sum ops p (nat n) (nat i)"
    proof -
      have "nat i = Suc (nat (i - 1))" "\<not> Suc (nat (i - 1)) < nat n"
        "Suc (nat (i - 1)) - nat n = nat (i - n)"
        using prems by simp_all
      then show ?thesis
        by (simp add: sm'_def prems(6) a_def b_def)
    qed
    have len': "length sma' = length p"
      by (simp add: sma'_def prems)
    have "\<exists>r. calcSMA_roll ops p n N (i + 1) sm' sma' = Some r \<and> length r = length p \<and>
           (\<forall>j. j < nat (i + 1) \<longrightarrow> r ! j = sma' ! j) \<and>
           (\<forall>j. nat (i + 1) \<le> j \<and> j < length p \<longrightarrow>
                r ! j = fdiv ops (running_sum ops p (nat n) j) (fofint ops n))"
      using True prems sm'_eq by (intro IH[OF True ga gb _ st] len') (simp_all add: sm'_def)
    then obtain r where r: "calcSMA_roll ops p n N (i + 1) sm' sma' = Some r"
        "length r = length p"
        "\<And>j. j < nat (i + 1) \<Longrightarrow> r ! j = sma' ! j"
        "\<And>j. nat (i + 1) \<le> j \<Longrightarrow> j < length p \<Longrightarrow>
                r ! j = fdiv ops (running_sum ops p (nat n) j) (fofint ops n)"
      by blast
    have old: "r ! j = sma ! j" if "j < nat i" for j
      using r(3)[of j] that by (simp add: sma'_def)
    have at_i: "r ! nat i = fdiv ops (running_sum ops p (nat n) (nat i)) (fofint ops n)"
    proof -
      have "r ! nat i = sma' ! nat i"
        using r(3)[of "nat i"] prems by simp
      also have "\<dots> = fdiv ops sm' (fofint ops n)"
        using True prems by (simp add: sma'_def)
      finally show ?thesis
        by (simp add: sm'_eq)
    qed
    have new: "r ! j = fdiv ops (running_sum ops p (nat n) j) (fofint ops n)"
      if "nat i \<le> j" "j < length p" for j
    proof (cases "j = nat i")
      case True
      then show ?thesis
        using at_i by simp
    next
      case False
      then have "nat (i + 1) \<le> j"
        using that prems by simp
      then show ?thesis
        using r(4) that by simp
    qed
    show ?thesis
      unfolding unf using r(1,2) old new by blast
  qed
qed

lemma running_sum_below: "i < n \<Longrightarrow> running_sum ops p n i = first_sum ops p n"
  by (cases i) simp_all

lemma calcSMA_invalid:
  "n < 1 \<or> int (length p) < n \<Longrightarrow> calcSMA ops p n = Some (replicate (length p) (fnan ops))"
  by (simp add: calcSMA_def Let_def)

lemma calcSMA_valid:
  assumes "1 \<le> n" "n \<le> int (length p)"
  shows "\<exists>sma. calcSMA ops p n = Some sma \<and> length sma = length p \<and>
           (\<forall>j. int j < n - 1 \<longrightarrow> sma ! j = fnan ops) \<and>
           (\<forall>j. n - 1 \<le> int j \<and> j < length p \<longrightarrow>
                sma ! j = fdiv ops (running_sum ops p (nat n) j) (fofint ops n))"
proof -
  define sma0 where "sma0 = replicate (length p) (fnan ops)"
  define sm where "sm = first_sum ops p (nat n)"
  define sma1 where "sma1 = sma0[nat (n - 1) := fdiv ops sm (fofint ops n)]"
  have s1: "calcSMA_sum ops p n 0 (fofint ops 0) = Some sm"
    using assms by (simp add: calcSMA_sum_first sm_def)
  have s2: "vset sma0 (n - 1) (fdiv ops sm (fofint ops n)) = Some sma1"
    using assms by (simp add: vset_Some sma0_def sma1_def)
  have unf: "calcSMA ops p n = calcSMA_roll ops p n (int (length p)) n sm sma1"
    using assms s1 s2 by (simp add: calcSMA_def Let_def sma0_def)
  have sm_eq: "sm = running_sum ops p (nat n) (nat (n - 1))"
    using assms by (simp add: sm_def running_sum_below)
  have "\<exists>r. calcSMA_roll ops p n (int (length p)) n sm sma1 = Some r \<and> length r = length p \<and>
           (\<forall>j. j < nat n \<longrightarrow> r ! j = sma1 ! j) \<and>
           (\<forall>j. nat n \<le> j \<and> j < length p \<longrightarrow>
                r ! j = fdiv ops (running_sum ops p (nat n) j) (fofint ops n))"
    using assms sm_eq by (intro calcSMA_roll_spec) (simp_all add: sma1_def sma0_def)
  then obtain r where r: "calcSMA_roll ops p n (int (length p)) n sm sma1 = Some r"
      "length r = length p"
      "\<And>j. j < nat n \<Longrightarrow> r ! j = sma1 ! j"
      "\<And>j. nat n \<le> j \<Longrightarrow> j < length p \<Longrightarrow>
              r ! j = fdiv ops (running_sum ops p (nat n) j) (fofint ops n)"
    by blast
  have warm: "r ! j = fnan ops" if "int j < n - 1" for j
  proof -
    have "j < nat n" "j \<noteq> nat (n - 1)" "j < length p"
      using that assms by auto
    then show ?thesis
      using r(3)[of j] by (simp add: sma1_def sma0_def)
  qed
  have later: "r ! j = fdiv ops (running_sum ops p (nat n) j) (fofint ops n)"
    if "n - 1 \<le> int j" "j < length p" for j
  proof (cases "j = nat (n - 1)")
    case True
    then have "r ! j = sma1 ! j"
      using r(3)[of j] assms by simp
    also have "\<dots> = fdiv ops sm (fofint ops n)"
      using True that assms by (simp add: sma1_def sma0_def)
    finally show ?thesis
      using True sm_eq by simp
  next
    case False
    then have "nat n \<le> j"
      using that by auto
    then show ?thesis
      using r(4) that by simp
  qed
  show ?thesis
    unfolding unf using r(1,2) warm later by blast
qed

lemma calcSMA_length: "\<exists>sma. calcSMA ops p n = Some sma \<and> length sma = length p"
proof (cases "n < 1 \<or> int (length p) < n")
  case True
  then show ?thesis
    by (simp add: calcSMA_invalid)
next
  case False
  then show ?thesis
    using calcSMA_valid[of n p ops] by auto
qed

text \<open>
  C6. For a window below 1 or above the length of the series, \<open>calcSMA\<close> returns (no access
  is out of range) a series of the length of the input in which every entry is the
  quiet NaN.
\<close>

theorem calcSMA_out_of_range_window:
  "n < 1 \<or> int (length p) < n \<Longrightarrow>
   calcSMA ops p n = Some (replicate (length p) (fnan ops)) \<and>
   length (replicate (length p) (fnan ops)) = length p \<and>
   (\<forall>x \<in> set (replicate (length p) (fnan ops)). x = fnan ops)"
  by (simp add: calcSMA_def Let_def)

theorem calcSMA_out_of_range_window_witness:
  "(5 < (1::int) \<or> int (length [Fin 1, Fin 2, Fin 3]) < 5) \<and>
   calcSMA xops [Fin 1, Fin 2, Fin 3] 5 = Some [NaN, NaN, NaN]"
proof -
  have h: "5 < (1::int) \<or> int (length [Fin 1, Fin 2, Fin 3]) < 5"
    by simp
  have "replicate (length [Fin 1, Fin 2, Fin 3]) (fnan xops) = [NaN, NaN, NaN]"
    by (simp add: xops_def numeral_3_eq_3)
  then show ?thesis
    using h calcSMA_out_of_range_window[of 5 "[Fin 1, Fin 2, Fin 3]" xops] by simp
qed

text \<open>
  C1. For a window \<open>n\<close> with \<open>1 \<le> n \<le> len(p)\<close>, \<open>calcSMA\<close> returns a series of the length
  of \<open>p\<close>; the positions \<open>0, \<dots>, n - 2\<close> hold the quiet NaN; position \<open>n - 1\<close> holds the sum
  of the first \<open>n\<close> prices (added from left to right, starting from \<open>0.0\<close>) divided by \<open>n\<close>;
  and every position \<open>i \<ge> n\<close> holds the running sum divided by \<open>n\<close>, where the running sum
  of position \<open>i\<close> is that of position \<open>i - 1\<close> plus \<open>p[i] - p[i - n]\<close>.
\<close>

theorem calcSMA_windowed_mean:
  assumes "1 \<le> n" and "n \<le> int (length p)"
  shows "\<exists>sma. calcSMA ops p n = Some sma \<and> length sma = length p \<and>
           (\<forall>j. int j < n - 1 \<longrightarrow> sma ! j = fnan ops) \<and>
           sma ! nat (n - 1) =
             fdiv ops (foldl (fadd ops) (fofint ops 0) (take (nat n) p)) (fofint ops n) \<and>
           (\<forall>i. n \<le> int i \<and> i < length p \<longrightarrow>
                sma ! i = fdiv ops (running_sum ops p (nat n) i) (fofint ops n) \<and>
                running_sum ops p (nat n) i =
                  fadd ops (running_sum ops p (nat n) (i - 1))
                    (fsub ops (p ! i) (p ! (i - nat n))))"
proof -
  obtain sma where sma: "calcSMA ops p n = Some sma" "length sma = length p"
      "\<And>j. int j < n - 1 \<Longrightarrow> sma ! j = fnan ops"
      "\<And>j. n - 1 \<le> int j \<Longrightarrow> j < length p \<Longrightarrow>
              sma ! j = fdiv ops (running_sum ops p (nat n) j) (fofint ops n)"
    using calcSMA_valid[OF assms, of ops] by blast
  have first: "sma ! nat (n - 1) =
      fdiv ops (foldl (fadd ops) (fofint ops 0) (take (nat n) p)) (fofint ops n)"
    using sma(4)[of "nat (n - 1)"] assms
    by (simp add: running_sum_below first_sum_def)
  have step: "running_sum ops p (nat n) i =
      fadd ops (running_sum ops p (nat n) (i - 1)) (fsub ops (p ! i) (p ! (i - nat n)))"
    if ni: "n \<le> int i" for i
  proof -
    obtain k where k: "i = Suc k"
      using ni assms by (cases i) auto
    have "\<not> Suc k < nat n"
      using ni k by simp
    then show ?thesis
      by (simp add: k)
  qed
  show ?thesis
    using sma(1,2,3) first sma(4) step by (intro exI[of _ sma]) auto
qed

theorem calcSMA_windowed_mean_witness:
  "1 \<le> (2::int) \<and> 2 \<le> int (length [Fin 1, Fin 2, Fin 3, Fin 6]) \<and>
   (\<exists>sma. calcSMA xops [Fin 1, Fin 2, Fin 3, Fin 6] 2 = Some sma \<and>
      sma = [NaN, Fin (3 / 2), Fin (5 / 2), Fin (9 / 2)] \<and>
      sma ! nat (2 - 1) =
        fdiv xops (foldl (fadd xops) (fofint xops 0) (take (nat 2) [Fin 1, Fin 2, Fin 3, Fin 6]))
          (fofint xops 2))"
proof -
  have h1: "1 \<le> (2::int)"
    by simp
  have h2: "2 \<le> int (length [Fin 1, Fin 2, Fin 3, Fin 6])"
    by simp
  have v: "calcSMA xops [Fin 1, Fin 2, Fin 3, Fin 6] 2
      = Some [NaN, Fin (3 / 2), Fin (5 / 2), Fin (9 / 2)]"
    by code_simp
  show ?thesis
    using h1 h2 v calcSMA_windowed_mean[OF h1 h2, of xops] by auto
qed

subsection \<open>The running sum without rounding\<close>

text \<open>
  In the arithmetic \<open>xops\<close>, which does not round, the update rule keeps the sum of the
  window: on finite prices the entry at every position \<open>i \<ge> n - 1\<close> is the mean of
  \<open>p[i - n + 1], \<dots>, p[i]\<close>.
\<close>

lemma foldl_xadd_Fin: "foldl xadd (Fin a) (map Fin qs) = Fin (a + sum_list qs)"
  by (induction qs arbitrary: a) (simp_all add: add.assoc)

lemma first_sum_exact:
  "first_sum xops (map Fin qs) n = Fin (sum_list (take n qs))"
  by (simp add: first_sum_def xops_def xofint_def take_map foldl_xadd_Fin)

lemma sum_list_take_nth: "n \<le> length qs \<Longrightarrow> sum_list (take n qs) = (\<Sum>k<n. qs ! k)"
proof (induction n)
  case 0
  then show ?case by simp
next
  case (Suc n)
  then show ?case by (simp add: take_Suc_conv_app_nth)
qed

lemma window_shift:
  fixes f :: "nat \<Rightarrow> rat"
  assumes "n \<le> Suc i" "0 < n"
  shows "(\<Sum>k = Suc i + 1 - n..Suc i. f k) = (\<Sum>k = i + 1 - n..i. f k) + f (Suc i) - f (Suc i - n)"
proof -
  define m where "m = Suc i - n"
  have i: "Suc i = m + n" "i + 1 - n = m" "Suc i + 1 - n = Suc m"
    using assms by (simp_all add: m_def)
  have "m \<le> i" using assms i by simp
  then have "(\<Sum>k = m..i. f k) = f m + (\<Sum>k = Suc m..i. f k)"
    by (simp add: sum.atLeast_Suc_atMost)
  moreover have "(\<Sum>k = Suc m..Suc i. f k) = (\<Sum>k = Suc m..i. f k) + f (Suc i)"
    using \<open>m \<le> i\<close> by simp
  ultimately show ?thesis
    unfolding i(2,3) m_def[symmetric] by simp
qed

lemma running_sum_exact:
  assumes "0 < n" "n \<le> Suc i" "i < length qs"
  shows "running_sum xops (map Fin qs) n i = Fin (\<Sum>k = i + 1 - n..i. qs ! k)"
  using assms
proof (induction i)
  case 0
  then have n: "n = Suc 0" by simp
  have "take (Suc 0) qs = [qs ! 0]"
    using 0 by (cases qs) simp_all
  then show ?case
    by (simp add: first_sum_exact n)
next
  case (Suc i)
  show ?case
  proof (cases "Suc i < n")
    case True
    then have n: "n = Suc (Suc i)" using Suc.prems by simp
    have "sum_list (take n qs) = (\<Sum>k<n. qs ! k)"
      using Suc.prems n by (intro sum_list_take_nth) simp
    also have "{..<n} = {Suc i + 1 - n..Suc i}"
      using n by auto
    finally show ?thesis
      using True by (simp add: first_sum_exact)
  next
    case False
    then have le: "n \<le> Suc i" by simp
    have IH: "running_sum xops (map Fin qs) n i = Fin (\<Sum>k = i + 1 - n..i. qs ! k)"
      using Suc.IH Suc.prems le by simp
    have "running_sum xops (map Fin qs) n (Suc i)
        = xadd (running_sum xops (map Fin qs) n i) (xsub (Fin (qs ! Suc i)) (Fin (qs ! (Suc i - n))))"
      using False Suc.prems by (simp add: xops_def)
    also have "\<dots> = Fin ((\<Sum>k = i + 1 - n..i. qs ! k) + qs ! Suc i - qs ! (Suc i - n))"
      unfolding IH by (simp add: xsub_def)
    also have "\<dots> = Fin (\<Sum>k = Suc i + 1 - n..Suc i. qs ! k)"
      using window_shift[OF le Suc.prems(1), of "\<lambda>k. qs ! k"] by simp
    finally show ?thesis .
  qed
qed

lemma calcSMA_exact_mean:
  assumes "1 \<le> n" "n \<le> int (length qs)"
  shows "\<exists>sma. calcSMA xops (map Fin qs) n = Some sma \<and> length sma = length qs \<and>
           (\<forall>i. n - 1 \<le> int i \<and> i < length qs \<longrightarrow>
              sma ! i = Fin ((\<Sum>k = i + 1 - nat n..i. qs ! k) / of_int n))"
proof -
  have a: "1 \<le> n" "n \<le> int (length (map Fin qs))"
    using assms by simp_all
  obtain sma where sma: "calcSMA xops (map Fin qs) n = Some sma" "length sma = length qs"
      "\<And>j. n - 1 \<le> int j \<Longrightarrow> j < length qs \<Longrightarrow>
              sma ! j = fdiv xops (running_sum xops (map Fin qs) (nat n) j) (fofint xops n)"
    using calcSMA_valid[OF a, of xops] by auto
  have "sma ! i = Fin ((\<Sum>k = i + 1 - nat n..i. qs ! k) / of_int n)"
    if "n - 1 \<le> int i \<and> i < length qs" for i
  proof -
    have "running_sum xops (map Fin qs) (nat n) i = Fin (\<Sum>k = i + 1 - nat n..i. qs ! k)"
      using that assms by (intro running_sum_exact) auto
    then show ?thesis
      using sma(3)[of i] that assms by (simp add: xops_def xofint_def)
  qed
  then show ?thesis
    using sma(1,2) by blast
qed

section \<open>Properties of simulateWithCapitalRange\<close>

lemma ex_sma2_calc: "calcSMA xops ex_prices 2 = Some ex_sma2"
  by code_simp

lemma ex_sma4_calc: "calcSMA xops ex_prices 4 = Some ex_sma4"
  by code_simp

lemma clamp_bounds:
  assumes "clamp_start startIdx < clamp_end (int (length prices)) endIdx"
  shows "1 \<le> first_day (clamp_start startIdx)"
    and "0 < clamp_end (int (length prices)) endIdx"
    and "clamp_end (int (length prices)) endIdx < int (length prices)"
    and "first_day (clamp_start startIdx) \<le> clamp_end (int (length prices)) endIdx"
  using assms by (auto simp: clamp_start_def clamp_end_def first_day_def split: if_splits)

text \<open>
  With moving averages at least as long as the price series, an iteration for an index
  between 1 and \<open>len(prices) - 1\<close> reads inside all three vectors.
\<close>

lemma sim_step_Some:
  assumes "1 \<le> i" "i < int (length prices)"
    and "length prices \<le> length smaS" "length prices \<le> length smaL"
  shows "\<exists>st'. sim_step ops prices smaS smaL startIdx i st = Some st'"
proof -
  have "vget smaS (i - 1) = Some (smaS ! nat (i - 1))"
    "vget smaL (i - 1) = Some (smaL ! nat (i - 1))"
    "vget smaS i = Some (smaS ! nat i)" "vget smaL i = Some (smaL ! nat i)"
    "vget prices i = Some (prices ! nat i)"
    using assms by (simp_all add: vget_Some)
  then show ?thesis
    by (simp add: sim_step_def Let_def)
qed

lemma simulate_unfold:
  assumes "clamp_start startIdx < clamp_end (int (length prices)) endIdx"
  shows "simulateWithCapitalRange ops prices smaS smaL startIdx endIdx =
     sim_loop ops prices smaS smaL (first_day (clamp_start startIdx))
       (clamp_end (int (length prices)) endIdx) (first_day (clamp_start startIdx)) (st0 ops)
     \<bind> liquidate ops prices (clamp_end (int (length prices)) endIdx)"
proof -
  have "length prices \<noteq> 0"
    using clamp_bounds(2,3)[OF assms] by auto
  then show ?thesis
    using assms by (simp add: simulateWithCapitalRange_def Let_def st0_def)
qed

text \<open>
  C5. An empty series, or a range that is empty after \<open>startIdx\<close> is raised to 0 and
  \<open>endIdx\<close> lowered to \<open>len(prices) - 1\<close>, gives the initial capital 10000 and no trade
  (no purchase is counted either).
\<close>

theorem simulate_degenerate_range:
  "prices = [] \<or> clamp_end (int (length prices)) endIdx \<le> clamp_start startIdx \<Longrightarrow>
   simulateWithCapitalRange ops prices smaS smaL startIdx endIdx
     = Some \<lparr>finalCapital = fofint ops 10000, tradeCount = 0\<rparr> \<and>
   simulate_buys ops prices smaS smaL startIdx endIdx = Some 0"
  by (auto simp: simulateWithCapitalRange_def simulate_buys_def INITIAL_def Let_def)

theorem simulate_degenerate_range_witness:
  "(ex_prices = [] \<or> clamp_end (int (length ex_prices)) 3 \<le> clamp_start 5) \<and>
   simulateWithCapitalRange xops ex_prices ex_sma2 ex_sma4 5 3
     = Some \<lparr>finalCapital = Fin 10000, tradeCount = 0\<rparr>"
proof -
  have h: "ex_prices = [] \<or> clamp_end (int (length ex_prices)) 3 \<le> clamp_start 5"
    by (simp add: clamp_end_def clamp_start_def ex_prices_def)
  have "fofint xops 10000 = Fin 10000"
    by (simp add: xops_def xofint_def)
  then show ?thesis
    using h simulate_degenerate_range[OF h, of xops ex_sma2 ex_sma4] by simp
qed

text \<open>
  C4. The iteration for \<open>i = startIdx\<close> (the start index after all adjustments) never
  buys. From a flat position it either leaves the state as it is or, when one of its
  reads of the moving averages is out of range, fails; in no case does it produce the state
  of a purchase. From any position it can at most sell. So, with moving averages as long
  as the prices, the whole simulation is the one that starts a day later: the first day
  leaves the initial state as it is, whatever the averages are.
\<close>

theorem no_buy_on_start_day:
  "(shares st = 0 \<longrightarrow>
      sim_step ops prices smaS smaL startIdx startIdx st = Some st \<or>
      sim_step ops prices smaS smaL startIdx startIdx st = None) \<and>
   (\<forall>st'. sim_step ops prices smaS smaL startIdx startIdx st = Some st' \<longrightarrow>
      st' = st \<or> 0 < shares st \<and> shares st' = 0 \<and> trades st' = trades st + 1) \<and>
   (clamp_start idx < clamp_end (int (length prices)) endIdx \<and>
    length prices \<le> length smaS \<and> length prices \<le> length smaL \<longrightarrow>
      simulateWithCapitalRange ops prices smaS smaL idx endIdx =
        sim_loop ops prices smaS smaL (first_day (clamp_start idx))
          (clamp_end (int (length prices)) endIdx) (first_day (clamp_start idx) + 1)
          \<lparr>cash = INITIAL ops, shares = 0, trades = 0\<rparr>
        \<bind> liquidate ops prices (clamp_end (int (length prices)) endIdx))"
proof (intro conjI impI)
  show "sim_step ops prices smaS smaL startIdx startIdx st = Some st \<or>
      sim_step ops prices smaS smaL startIdx startIdx st = None" if "shares st = 0"
    using that by (auto simp: sim_step_def Let_def split: Option.bind_splits)
  show "\<forall>st'. sim_step ops prices smaS smaL startIdx startIdx st = Some st' \<longrightarrow>
      st' = st \<or> 0 < shares st \<and> shares st' = 0 \<and> trades st' = trades st + 1"
    by (auto simp: sim_step_def Let_def split: Option.bind_splits)
next
  assume a: "clamp_start idx < clamp_end (int (length prices)) endIdx \<and>
    length prices \<le> length smaS \<and> length prices \<le> length smaL"
  define s where "s = first_day (clamp_start idx)"
  define e where "e = clamp_end (int (length prices)) endIdx"
  have lt: "clamp_start idx < clamp_end (int (length prices)) endIdx"
    using a by simp
  have b: "1 \<le> s" "s \<le> e" "e < int (length prices)"
    using clamp_bounds(1,4,3)[OF lt] by (simp_all add: s_def e_def)
  obtain st1 where st1: "sim_step ops prices smaS smaL s s (st0 ops) = Some st1"
    using sim_step_Some[of s prices smaS smaL ops s "st0 ops"] a b by auto
  have "st1 = st0 ops"
    using st1 by (auto simp: sim_step_def Let_def st0_def split: Option.bind_splits if_splits)
  then have "sim_loop ops prices smaS smaL s e s (st0 ops)
      = sim_loop ops prices smaS smaL s e (s + 1) (st0 ops)"
    using st1 b(2) by (subst sim_loop.simps) simp
  then show "simulateWithCapitalRange ops prices smaS smaL idx endIdx =
        sim_loop ops prices smaS smaL (first_day (clamp_start idx))
          (clamp_end (int (length prices)) endIdx) (first_day (clamp_start idx) + 1)
          \<lparr>cash = INITIAL ops, shares = 0, trades = 0\<rparr>
        \<bind> liquidate ops prices (clamp_end (int (length prices)) endIdx)"
    unfolding simulate_unfold[OF lt] by (simp add: s_def e_def st0_def)
qed

text \<open>
  At index 1 of the series below the difference of the averages goes from \<open>- 1\<close> to \<open>1\<close>, a
  golden cross. With \<open>startIdx = 1\<close> nothing is bought; the same iteration with
  \<open>startIdx = 0\<close> buys 1000 shares.
\<close>

theorem no_buy_on_start_day_witness:
  "shares (st0 xops) = 0 \<and>
   fless xops (fsub xops (Fin 1) (Fin 2)) (fofint xops 0) \<and>
   fless xops (fofint xops 0) (fsub xops (Fin 3) (Fin 2)) \<and>
   sim_step xops [Fin 10, Fin 10] [Fin 1, Fin 3] [Fin 2, Fin 2] 1 1 (st0 xops) = Some (st0 xops) \<and>
   sim_step xops [Fin 10, Fin 10] [Fin 1, Fin 3] [Fin 2, Fin 2] 0 1 (st0 xops)
     = Some \<lparr>cash = Fin 0, shares = 1000, trades = 1\<rparr> \<and>
   clamp_start 0 < clamp_end (int (length [Fin 10, Fin 10])) 1 \<and>
   length [Fin 10, Fin 10] \<le> length [Fin 1, Fin 3] \<and>
   length [Fin 10, Fin 10] \<le> length [Fin 2, Fin 2] \<and>
   simulateWithCapitalRange xops [Fin 10, Fin 10] [Fin 1, Fin 3] [Fin 2, Fin 2] 0 1
     = sim_loop xops [Fin 10, Fin 10] [Fin 1, Fin 3] [Fin 2, Fin 2]
         (first_day (clamp_start 0)) (clamp_end (int (length [Fin 10, Fin 10])) 1)
         (first_day (clamp_start 0) + 1) \<lparr>cash = INITIAL xops, shares = 0, trades = 0\<rparr>
       \<bind> liquidate xops [Fin 10, Fin 10] (clamp_end (int (length [Fin 10, Fin 10])) 1) \<and>
   simulateWithCapitalRange xops [Fin 10, Fin 10] [Fin 1, Fin 3] [Fin 2, Fin 2] 0 1
     = Some \<lparr>finalCapital = Fin 10000, tradeCount = 0\<rparr>"
proof -
  have h: "shares (st0 xops) = 0"
    by (simp add: st0_def)
  have cross: "fless xops (fsub xops (Fin 1) (Fin 2)) (fofint xops 0)"
    "fless xops (fofint xops 0) (fsub xops (Fin 3) (Fin 2))"
    by code_simp+
  have ok: "sim_step xops [Fin 10, Fin 10] [Fin 1, Fin 3] [Fin 2, Fin 2] 1 1 (st0 xops) \<noteq> None"
    by code_simp
  have buy: "sim_step xops [Fin 10, Fin 10] [Fin 1, Fin 3] [Fin 2, Fin 2] 0 1 (st0 xops)
     = Some \<lparr>cash = Fin 0, shares = 1000, trades = 1\<rparr>"
    by code_simp
  have r: "clamp_start 0 < clamp_end (int (length [Fin 10, Fin 10 :: xdouble])) 1"
    by (simp add: clamp_start_def clamp_end_def)
  have l: "length [Fin 10, Fin 10] \<le> length [Fin 1, Fin 3]"
    "length [Fin 10, Fin 10] \<le> length [Fin 2, Fin 2]"
    by simp_all
  have v: "simulateWithCapitalRange xops [Fin 10, Fin 10] [Fin 1, Fin 3] [Fin 2, Fin 2] 0 1
     = Some \<lparr>finalCapital = Fin 10000, tradeCount = 0\<rparr>"
    by code_simp
  note t = no_buy_on_start_day[of "st0 xops" xops "[Fin 10, Fin 10]" "[Fin 1, Fin 3]"
      "[Fin 2, Fin 2]" 1 0 1]
  have step: "sim_step xops [Fin 10, Fin 10] [Fin 1, Fin 3] [Fin 2, Fin 2] 1 1 (st0 xops)
      = Some (st0 xops)"
    using t h ok by blast
  have run: "simulateWithCapitalRange xops [Fin 10, Fin 10] [Fin 1, Fin 3] [Fin 2, Fin 2] 0 1
     = sim_loop xops [Fin 10, Fin 10] [Fin 1, Fin 3] [Fin 2, Fin 2]
         (first_day (clamp_start 0)) (clamp_end (int (length [Fin 10, Fin 10])) 1)
         (first_day (clamp_start 0) + 1) \<lparr>cash = INITIAL xops, shares = 0, trades = 0\<rparr>
       \<bind> liquidate xops [Fin 10, Fin 10] (clamp_end (int (length [Fin 10, Fin 10])) 1)"
    using t r l by blast
  show ?thesis
    using h cross step buy r l run v by (intro conjI)
qed

text \<open>
  C3. When the loop ends with \<open>shares > 0\<close>, the simulator returns the cash plus
  \<open>shares\<close> times the price at the lowered end index, and one trade more than the loop
  counted. Nothing is assumed about the averages of the last day.
\<close>

theorem forced_liquidation:
  assumes "clamp_start startIdx < clamp_end (int (length prices)) endIdx"
    and "sim_loop ops prices smaS smaL (first_day (clamp_start startIdx))
           (clamp_end (int (length prices)) endIdx) (first_day (clamp_start startIdx))
           \<lparr>cash = INITIAL ops, shares = 0, trades = 0\<rparr> = Some st"
    and "0 < shares st"
  shows "simulateWithCapitalRange ops prices smaS smaL startIdx endIdx =
     Some \<lparr>finalCapital =
              fadd ops (cash st)
                (fmul ops (fofint ops (shares st))
                   (prices ! nat (clamp_end (int (length prices)) endIdx))),
            tradeCount = trades st + 1\<rparr>"
proof -
  have "vget prices (clamp_end (int (length prices)) endIdx)
      = Some (prices ! nat (clamp_end (int (length prices)) endIdx))"
    using clamp_bounds(2,3)[OF assms(1)] by (simp add: vget_Some)
  then show ?thesis
    using assms(2,3) by (simp add: simulate_unfold[OF assms(1)] st0_def liquidate_def)
qed

theorem forced_liquidation_witness:
  "clamp_start 0 < clamp_end (int (length ex_prices)) 7 \<and>
   sim_loop xops ex_prices ex_sma2 ex_sma4 (first_day (clamp_start 0))
     (clamp_end (int (length ex_prices)) 7) (first_day (clamp_start 0))
     \<lparr>cash = INITIAL xops, shares = 0, trades = 0\<rparr>
     = Some \<lparr>cash = Fin 0, shares = 500, trades = 1\<rparr> \<and>
   0 < shares \<lparr>cash = Fin 0, shares = 500, trades = 1\<rparr> \<and>
   simulateWithCapitalRange xops ex_prices ex_sma2 ex_sma4 0 7
     = Some \<lparr>finalCapital = Fin 15000, tradeCount = 2\<rparr>"
proof -
  have h1: "clamp_start 0 < clamp_end (int (length ex_prices)) 7"
    by code_simp
  have h2: "sim_loop xops ex_prices ex_sma2 ex_sma4 (first_day (clamp_start 0))
     (clamp_end (int (length ex_prices)) 7) (first_day (clamp_start 0))
     \<lparr>cash = INITIAL xops, shares = 0, trades = 0\<rparr>
     = Some \<lparr>cash = Fin 0, shares = 500, trades = 1\<rparr>"
    by code_simp
  have h3: "0 < shares \<lparr>cash = Fin 0, shares = 500, trades = 1\<rparr>"
    by simp
  have v: "fadd xops (cash \<lparr>cash = Fin 0, shares = 500, trades = 1\<rparr>)
      (fmul xops (fofint xops (shares \<lparr>cash = Fin 0, shares = 500, trades = 1\<rparr>))
         (ex_prices ! nat (clamp_end (int (length ex_prices)) 7))) = Fin 15000"
    by code_simp
  show ?thesis
    using h1 h2 h3 forced_liquidation[OF h1 h2 h3] unfolding v by simp
qed

subsection \<open>Array accesses\<close>

text \<open>
  With moving averages at least as long as the price series, the loop entered at an
  index of at least 1 and bounded by an end index below \<open>len(prices)\<close> reads inside all
  three vectors.
\<close>

lemma sim_loop_Some:
  assumes "1 \<le> i" "endIdx < int (length prices)"
    and "length prices \<le> length smaS" "length prices \<le> length smaL"
  shows "\<exists>st'. sim_loop ops prices smaS smaL startIdx endIdx i st = Some st'"
  using assms
proof (induction ops prices smaS smaL startIdx endIdx i st rule: sim_loop.induct)
  case (1 ops prices smaS smaL startIdx endIdx i st)
  note IH = "1.IH" and prems = "1.prems"
  show ?case
  proof (cases "i \<le> endIdx")
    case False
    then show ?thesis
      by (subst sim_loop.simps) simp
  next
    case True
    obtain st' where st': "sim_step ops prices smaS smaL startIdx i st = Some st'"
      using sim_step_Some[of i prices smaS smaL ops startIdx st] True prems by auto
    have "\<exists>st''. sim_loop ops prices smaS smaL startIdx endIdx (i + 1) st' = Some st''"
      using prems by (intro IH[OF True st']) simp_all
    then show ?thesis
      using True st' by (subst sim_loop.simps) simp
  qed
qed

lemma liquidate_Some:
  "0 \<le> endIdx \<Longrightarrow> endIdx < int (length prices) \<Longrightarrow>
   \<exists>r. liquidate ops prices endIdx st = Some r"
  by (simp add: liquidate_def vget_Some)

lemma simulate_Some:
  assumes "length prices \<le> length smaS" "length prices \<le> length smaL"
  shows "\<exists>r. simulateWithCapitalRange ops prices smaS smaL startIdx endIdx = Some r"
proof (cases "clamp_start startIdx < clamp_end (int (length prices)) endIdx")
  case False
  then show ?thesis
    by (auto simp: simulateWithCapitalRange_def Let_def)
next
  case True
  note b = clamp_bounds[OF True]
  obtain st where st: "sim_loop ops prices smaS smaL (first_day (clamp_start startIdx))
      (clamp_end (int (length prices)) endIdx) (first_day (clamp_start startIdx)) (st0 ops)
      = Some st"
    using sim_loop_Some[OF b(1) b(3) assms] by blast
  obtain r where "liquidate ops prices (clamp_end (int (length prices)) endIdx) st = Some r"
    using liquidate_Some[of "clamp_end (int (length prices)) endIdx" prices ops st] b by auto
  then show ?thesis
    using st by (simp add: simulate_unfold[OF True])
qed

text \<open>
  C9, as stated: for every price series, every pair of moving-average series and all
  indices, no access is out of range. It fails for moving averages shorter than the
  prices: the lengths of \<^verbatim>\<open>smaS\<close> and \<^verbatim>\<open>smaL\<close> are never looked at, and with three
  prices, empty averages and the range 0 to 2 the first iteration reads \<^verbatim>\<open>smaS[0]\<close>.
\<close>

theorem simulate_short_sma_counterexample:
  "simulateWithCapitalRange xops [Fin 1, Fin 1, Fin 1] [] [] 0 2 = None"
  by code_simp

text \<open>
  C9, amended: for every price series, all indices and every pair of moving-average
  series at least as long as the price series (as those of \<open>calcSMA\<close> are), every
  access of the simulator is in range and it returns an outcome.
\<close>

theorem simulate_never_fails_aligned:
  "length prices \<le> length smaS \<Longrightarrow> length prices \<le> length smaL \<Longrightarrow>
   \<exists>r. simulateWithCapitalRange ops prices smaS smaL startIdx endIdx = Some r"
  by (rule simulate_Some)

theorem simulate_never_fails_aligned_witness:
  "length ex_prices \<le> length ex_sma2 \<and> length ex_prices \<le> length ex_sma4 \<and>
   (\<exists>r. simulateWithCapitalRange xops ex_prices ex_sma2 ex_sma4 (- 3) 100 = Some r)"
proof -
  have h1: "length ex_prices \<le> length ex_sma2"
    by code_simp
  have h2: "length ex_prices \<le> length ex_sma4"
    by code_simp
  show ?thesis
    using h1 h2 simulate_never_fails_aligned[OF h1 h2, of xops "- 3" 100] by simp
qed

subsection \<open>Parity of the trade count\<close>

lemma sim_step_inv:
  assumes "sim_step ops prices smaS smaL startIdx i st = Some st'" "trade_inv st b"
  shows "trade_inv st' (if shares st = 0 \<and> 0 < shares st' then Suc b else b)"
  using assms
  by (auto simp: sim_step_def trade_inv_def Let_def split: if_splits Option.bind_splits)

lemma sim_loop_buys_inv:
  assumes "sim_loop_buys ops prices smaS smaL startIdx endIdx i st b = Some (st', b')"
    and "trade_inv st b"
  shows "trade_inv st' b'"
  using assms
proof (induction ops prices smaS smaL startIdx endIdx i st b rule: sim_loop_buys.induct)
  case (1 ops prices smaS smaL startIdx endIdx i st b)
  note IH = "1.IH" and prems = "1.prems"
  show ?case
  proof (cases "i \<le> endIdx")
    case False
    then show ?thesis
      using prems by (subst (asm) sim_loop_buys.simps) simp
  next
    case True
    then obtain st1 where st1: "sim_step ops prices smaS smaL startIdx i st = Some st1"
      and rest: "sim_loop_buys ops prices smaS smaL startIdx endIdx (i + 1) st1
          (if shares st = 0 \<and> 0 < shares st1 then Suc b else b) = Some (st', b')"
      using prems(1) by (subst (asm) sim_loop_buys.simps) (auto split: Option.bind_splits)
    show ?thesis
      using IH[OF True st1 rest] sim_step_inv[OF st1 prems(2)] by simp
  qed
qed

text \<open>The counting loop runs the simulation loop: forgetting the count gives \<open>sim_loop\<close>.\<close>

lemma sim_loop_buys_fst:
  "map_option fst (sim_loop_buys ops prices smaS smaL startIdx endIdx i st b)
     = sim_loop ops prices smaS smaL startIdx endIdx i st"
proof (induction ops prices smaS smaL startIdx endIdx i st b rule: sim_loop_buys.induct)
  case (1 ops prices smaS smaL startIdx endIdx i st b)
  show ?case
  proof (cases "i \<le> endIdx")
    case False
    then show ?thesis
      by (subst sim_loop_buys.simps, subst sim_loop.simps) simp
  next
    case True
    show ?thesis
    proof (cases "sim_step ops prices smaS smaL startIdx i st")
      case None
      then show ?thesis
        using True by (subst sim_loop_buys.simps, subst sim_loop.simps) simp
    next
      case (Some st1)
      then show ?thesis
        using True "1.IH"[OF True Some]
        by (subst sim_loop_buys.simps, subst sim_loop.simps) simp
    qed
  qed
qed

lemma simulate_trades:
  assumes "simulateWithCapitalRange ops prices smaS smaL startIdx endIdx = Some r"
  shows "\<exists>b. simulate_buys ops prices smaS smaL startIdx endIdx = Some b \<and>
           tradeCount r = 2 * int b"
proof (cases "clamp_start startIdx < clamp_end (int (length prices)) endIdx")
  case False
  then show ?thesis
    using assms
    by (auto simp: simulateWithCapitalRange_def simulate_buys_def Let_def split: if_splits)
next
  case True
  define s where "s = first_day (clamp_start startIdx)"
  define e where "e = clamp_end (int (length prices)) endIdx"
  have ne: "int (length prices) \<noteq> 0"
    using clamp_bounds(2,3)[OF True] by auto
  obtain st where st: "sim_loop ops prices smaS smaL s e s (st0 ops) = Some st"
    and r: "liquidate ops prices e st = Some r"
    using assms unfolding simulate_unfold[OF True] s_def e_def
    by (auto split: Option.bind_splits)
  obtain b where b: "sim_loop_buys ops prices smaS smaL s e s (st0 ops) 0 = Some (st, b)"
    using st sim_loop_buys_fst[of ops prices smaS smaL s e s "st0 ops" 0] by auto
  have "trade_inv (st0 ops) 0"
    by (simp add: trade_inv_def st0_def)
  then have inv: "trade_inv st b"
    using sim_loop_buys_inv[OF b] by simp
  have buys: "simulate_buys ops prices smaS smaL startIdx endIdx = Some b"
    using True ne b by (simp add: simulate_buys_def Let_def s_def e_def st0_def)
  have "tradeCount r = 2 * int b"
    using r inv by (auto simp: liquidate_def trade_inv_def split: if_splits Option.bind_splits)
  then show ?thesis
    using buys by simp
qed

text \<open>
  C10. Whenever the simulator returns, the trade count is even: it is twice the number of
  purchases, each purchase being followed by exactly one sale (at a death cross or at the
  forced sale that closes the position held after the loop). And it does return for
  moving averages aligned with the prices.
\<close>

theorem trade_count_even:
  "(\<forall>r. simulateWithCapitalRange ops prices smaS smaL startIdx endIdx = Some r \<longrightarrow>
      even (tradeCount r) \<and>
      (\<exists>b. simulate_buys ops prices smaS smaL startIdx endIdx = Some b \<and>
           tradeCount r = 2 * int b)) \<and>
   (length prices \<le> length smaS \<and> length prices \<le> length smaL \<longrightarrow>
      simulateWithCapitalRange ops prices smaS smaL startIdx endIdx \<noteq> None)"
proof -
  have "even (tradeCount r) \<and>
      (\<exists>b. simulate_buys ops prices smaS smaL startIdx endIdx = Some b \<and>
           tradeCount r = 2 * int b)"
    if "simulateWithCapitalRange ops prices smaS smaL startIdx endIdx = Some r" for r
    using simulate_trades[OF that] by auto
  moreover have "simulateWithCapitalRange ops prices smaS smaL startIdx endIdx \<noteq> None"
    if "length prices \<le> length smaS \<and> length prices \<le> length smaL"
    using simulate_Some[of prices smaS smaL ops startIdx endIdx] that by auto
  ultimately show ?thesis
    by blast
qed

theorem trade_count_even_witness:
  "simulateWithCapitalRange xops ex_prices ex_sma2 ex_sma4 0 7
     = Some \<lparr>finalCapital = Fin 15000, tradeCount = 2\<rparr> \<and>
   simulate_buys xops ex_prices ex_sma2 ex_sma4 0 7 = Some 1 \<and>
   even (tradeCount \<lparr>finalCapital = Fin 15000, tradeCount = 2\<rparr>) \<and>
   length ex_prices \<le> length ex_sma2 \<and> length ex_prices \<le> length ex_sma4"
proof -
  have v: "simulateWithCapitalRange xops ex_prices ex_sma2 ex_sma4 0 7
     = Some \<lparr>finalCapital = Fin 15000, tradeCount = 2\<rparr>"
    by code_simp
  have l: "length ex_prices \<le> length ex_sma2" "length ex_prices \<le> length ex_sma4"
    by code_simp+
  show ?thesis
    using v l trade_count_even[of xops ex_prices ex_sma2 ex_sma4 0 7] by auto
qed

section \<open>Properties of the grid\<close>

text \<open>The table loop fills the rows \<open>n, \<dots>, MAXN\<close> and stays inside the table.\<close>

lemma allSMA_loop_table:
  assumes "sma_table ops prices allSMA n" "1 \<le> n"
  shows "\<exists>a. allSMA_loop ops prices n allSMA = Some a \<and> sma_table ops prices a (MAXN + 1)"
  using assms
proof (induction ops prices n allSMA rule: allSMA_loop.induct)
  case (1 ops prices n allSMA)
  note IH = "1.IH" and prems = "1.prems"
  show ?case
  proof (cases "n \<le> MAXN")
    case False
    then have "n = MAXN + 1 \<or> MAXN + 1 < n" by auto
    then have "sma_table ops prices allSMA (MAXN + 1)"
      using prems(1) by (auto simp: sma_table_def)
    then show ?thesis
      using False by (subst allSMA_loop.simps) simp
  next
    case True
    obtain sma where sma: "calcSMA ops prices n = Some sma"
      using calcSMA_length[of ops prices n] by blast
    define a' where "a' = allSMA[nat n := sma]"
    have len: "length allSMA = nat (MAXN + 1)"
      using prems(1) by (simp add: sma_table_def)
    have st: "vset allSMA n sma = Some a'"
      using True prems(2) len by (simp add: vset_Some a'_def)
    have tab: "sma_table ops prices a' (n + 1)"
      unfolding sma_table_def
    proof (intro conjI allI impI)
      show "length a' = nat (MAXN + 1)" by (simp add: a'_def len)
    next
      fix k assume k: "1 \<le> k \<and> k < n + 1"
      show "calcSMA ops prices k = Some (a' ! nat k)"
      proof (cases "k = n")
        case True
        then show ?thesis using sma len \<open>n \<le> MAXN\<close> prems(2) by (simp add: a'_def)
      next
        case False
        then have "k < n" "nat k \<noteq> nat n" using k by auto
        then show ?thesis using prems(1) k by (simp add: a'_def sma_table_def)
      qed
    qed
    have "\<exists>a. allSMA_loop ops prices (n + 1) a' = Some a \<and> sma_table ops prices a (MAXN + 1)"
      using prems(2) by (intro IH[OF True sma st] tab) simp
    then show ?thesis
      using True sma st by (subst allSMA_loop.simps) simp
  qed
qed

lemma grid_cell_ok:
  assumes tab: "sma_table ops prices allSMA (MAXN + 1)"
    and s: "1 \<le> s" "s \<le> MAXN" and l: "1 \<le> l" "l \<le> MAXN"
  shows "\<exists>g' r. grid_cell ops prices allSMA startIdx endIdx s l g = Some g' \<and>
           results g' = results g @ [r] \<and> pair_of r = (s, l) \<and>
           cell_result ops prices startIdx endIdx r"
proof -
  have len: "length allSMA = nat (MAXN + 1)"
    using tab by (simp add: sma_table_def)
  have cs: "calcSMA ops prices s = Some (allSMA ! nat s)"
    and cl: "calcSMA ops prices l = Some (allSMA ! nat l)"
    using tab s l by (simp_all add: sma_table_def)
  have gs: "vget allSMA s = Some (allSMA ! nat s)" and gl: "vget allSMA l = Some (allSMA ! nat l)"
    using s l len by (simp_all add: vget_Some)
  have ls: "length (allSMA ! nat s) = length prices" and ll: "length (allSMA ! nat l) = length prices"
    using calcSMA_length[of ops prices s] calcSMA_length[of ops prices l] cs cl by auto
  obtain sr where sr: "simulateWithCapitalRange ops prices (allSMA ! nat s) (allSMA ! nat l)
      startIdx endIdx = Some sr"
    using simulate_Some[of prices "allSMA ! nat s" "allSMA ! nat l" ops startIdx endIdx] ls ll
    by auto
  define r where "r = \<lparr>br_s = s, br_l = l, br_finalCapital = finalCapital sr,
                  br_trades = tradeCount sr\<rparr>"
  have "cell_result ops prices startIdx endIdx r"
    unfolding cell_result_def using cs cl sr by (auto simp: r_def)
  moreover have "pair_of r = (s, l)" by (simp add: pair_of_def r_def)
  moreover have "\<exists>g'. grid_cell ops prices allSMA startIdx endIdx s l g = Some g' \<and>
           results g' = results g @ [r]"
    using gs gl sr by (simp add: grid_cell_def Let_def r_def)
  ultimately show ?thesis by blast
qed

lemma grid_inner_ok:
  assumes "sma_table ops prices allSMA (MAXN + 1)" "1 \<le> s" "s \<le> MAXN" "1 \<le> l"
  shows "\<exists>g' rs. grid_inner ops prices allSMA startIdx endIdx s l g = Some g' \<and>
           results g' = results g @ rs \<and> map pair_of rs = map (Pair s) [l..MAXN] \<and>
           (\<forall>r \<in> set rs. cell_result ops prices startIdx endIdx r)"
  using assms
proof (induction ops prices allSMA startIdx endIdx s l g rule: grid_inner.induct)
  case (1 ops prices allSMA startIdx endIdx s l g)
  note IH = "1.IH" and prems = "1.prems"
  show ?case
  proof (cases "l \<le> MAXN")
    case False
    then show ?thesis
      by (subst grid_inner.simps) simp
  next
    case True
    obtain g1 r where g1: "grid_cell ops prices allSMA startIdx endIdx s l g = Some g1"
      and r: "results g1 = results g @ [r]" "pair_of r = (s, l)"
        "cell_result ops prices startIdx endIdx r"
      using grid_cell_ok[OF prems(1,2,3,4) True] by blast
    obtain g' rs where g': "grid_inner ops prices allSMA startIdx endIdx s (l + 1) g1 = Some g'"
      and rs: "results g' = results g1 @ rs" "map pair_of rs = map (Pair s) [l + 1..MAXN]"
        "\<forall>r \<in> set rs. cell_result ops prices startIdx endIdx r"
      using IH[OF True g1 prems(1,2,3)] prems(4) by auto
    have "grid_inner ops prices allSMA startIdx endIdx s l g = Some g'"
      using True g1 g' by (subst grid_inner.simps) simp
    moreover have "results g' = results g @ (r # rs)"
      using r rs by simp
    moreover have "map pair_of (r # rs) = map (Pair s) [l..MAXN]"
      using r rs True by (simp add: upto_rec1[of l MAXN])
    moreover have "\<forall>x \<in> set (r # rs). cell_result ops prices startIdx endIdx x"
      using r rs by simp
    ultimately show ?thesis by blast
  qed
qed

lemma grid_outer_ok:
  assumes "sma_table ops prices allSMA (MAXN + 1)" "1 \<le> s"
  shows "\<exists>g' rs. grid_outer ops prices allSMA startIdx endIdx s g = Some g' \<and>
           results g' = results g @ rs \<and>
           map pair_of rs = List.product [s..MAXN] [1..MAXN] \<and>
           (\<forall>r \<in> set rs. cell_result ops prices startIdx endIdx r)"
  using assms
proof (induction ops prices allSMA startIdx endIdx s g rule: grid_outer.induct)
  case (1 ops prices allSMA startIdx endIdx s g)
  note IH = "1.IH" and prems = "1.prems"
  show ?case
  proof (cases "s \<le> MAXN")
    case False
    then show ?thesis
      by (subst grid_outer.simps) simp
  next
    case True
    obtain g1 rs1 where g1: "grid_inner ops prices allSMA startIdx endIdx s 1 g = Some g1"
      and rs1: "results g1 = results g @ rs1" "map pair_of rs1 = map (Pair s) [1..MAXN]"
        "\<forall>r \<in> set rs1. cell_result ops prices startIdx endIdx r"
      using grid_inner_ok[OF prems(1,2) True, of 1 startIdx endIdx g] by auto
    obtain g' rs where g': "grid_outer ops prices allSMA startIdx endIdx (s + 1) g1 = Some g'"
      and rs: "results g' = results g1 @ rs"
        "map pair_of rs = List.product [s + 1..MAXN] [1..MAXN]"
        "\<forall>r \<in> set rs. cell_result ops prices startIdx endIdx r"
      using IH[OF True g1 prems(1)] prems(2) by auto
    have "grid_outer ops prices allSMA startIdx endIdx s g = Some g'"
      using True g1 g' by (subst grid_outer.simps) simp
    moreover have "results g' = results g @ (rs1 @ rs)"
      using rs1 rs by simp
    moreover have "map pair_of (rs1 @ rs) = List.product [s..MAXN] [1..MAXN]"
      using rs1 rs True by (simp add: upto_rec1[of s MAXN])
    moreover have "\<forall>x \<in> set (rs1 @ rs). cell_result ops prices startIdx endIdx x"
      using rs1 rs by auto
    ultimately show ?thesis by blast
  qed
qed

lemma bruteForce_grid_ok:
  "\<exists>g. bruteForce_grid ops prices startIdx endIdx = Some g \<and>
     map pair_of (results g) = List.product [1..MAXN] [1..MAXN] \<and>
     (\<forall>r \<in> set (results g). cell_result ops prices startIdx endIdx r)"
proof -
  have "sma_table ops prices (replicate (nat (MAXN + 1)) []) 1"
    by (auto simp: sma_table_def)
  then obtain a where a: "allSMA_loop ops prices 1 (replicate (nat (MAXN + 1)) []) = Some a"
    and tab: "sma_table ops prices a (MAXN + 1)"
    using allSMA_loop_table[of ops prices "replicate (nat (MAXN + 1)) []" 1] by auto
  show ?thesis
    using grid_outer_ok[OF tab, of 1 startIdx endIdx
        "\<lparr>bestCapital = fofint ops (- (10 ^ 18)), bestS = - 1, bestL = - 1, results = []\<rparr>"] a
    by (auto simp: bruteForce_grid_def)
qed

text \<open>
  C7. For every price series and every range the double loop completes (no access is out
  of range), with \<open>MAXN = 256\<close>, and collects 65536 results: their pairs of periods are
  the pairs \<open>(s, l)\<close> with \<open>s\<close> and \<open>l\<close> from 1 to 256, each once, \<open>s\<close> outermost and
  including \<open>s = l\<close>; and every result holds the outcome of the simulation with the moving
  averages of its two periods.
\<close>

theorem grid_collects_every_pair:
  "MAXN = 256 \<and>
   (\<exists>g. bruteForce_grid ops prices startIdx endIdx = Some g \<and>
      length (results g) = 65536 \<and>
      map pair_of (results g) = List.product [1..256] [1..256] \<and>
      distinct (map pair_of (results g)) \<and>
      (\<forall>r \<in> set (results g). cell_result ops prices startIdx endIdx r))"
proof -
  obtain g where g: "bruteForce_grid ops prices startIdx endIdx = Some g"
      "map pair_of (results g) = List.product [1..MAXN] [1..MAXN]"
      "\<forall>r \<in> set (results g). cell_result ops prices startIdx endIdx r"
    using bruteForce_grid_ok[of ops prices startIdx endIdx] by blast
  have "length (map pair_of (results g)) = 65536"
    unfolding g(2) by (simp add: MAXN_def)
  then have len: "length (results g) = 65536"
    by simp
  have "distinct (map pair_of (results g))"
    unfolding g(2) by (simp add: distinct_product)
  then show ?thesis
    using g len by (auto simp: MAXN_def)
qed

theorem grid_collects_every_pair_witness:
  "\<exists>g. bruteForce_grid xops ex_prices 0 7 = Some g \<and> length (results g) = 65536 \<and>
     (\<forall>r \<in> set (results g). cell_result xops ex_prices 0 7 r)"
  using grid_collects_every_pair[of xops ex_prices 0 7] by blast

section \<open>Properties of the comparator\<close>

lemma float_order_xops: "float_order xops"
  unfolding float_order_def
proof (intro allI impI)
  fix x y z :: xdouble
  assume "\<not> fisnan xops x \<and> \<not> fisnan xops y \<and> \<not> fisnan xops z"
  then show "feq xops x x \<and>
        (feq xops x y \<longrightarrow> feq xops y x) \<and>
        (feq xops x y \<and> feq xops y z \<longrightarrow> feq xops x z) \<and>
        (fless xops x y \<or> feq xops x y \<or> fless xops y x) \<and>
        \<not> (fless xops x y \<and> fless xops y x) \<and>
        \<not> (fless xops x y \<and> feq xops x y) \<and>
        (fless xops x y \<and> fless xops y z \<longrightarrow> fless xops x z) \<and>
        (feq xops x y \<and> fless xops y z \<longrightarrow> fless xops x z) \<and>
        (fless xops x y \<and> feq xops y z \<longrightarrow> fless xops x z)"
    by (cases x; cases y; cases z) (auto simp: xops_def xeq_def xisnan_def)
qed

lemma float_orderD:
  assumes "float_order ops" "\<not> fisnan ops x" "\<not> fisnan ops y" "\<not> fisnan ops z"
  shows "feq ops x x" "feq ops x y \<Longrightarrow> feq ops y x"
    "feq ops x y \<Longrightarrow> feq ops y z \<Longrightarrow> feq ops x z"
    "fless ops x y \<or> feq ops x y \<or> fless ops y x"
    "fless ops x y \<Longrightarrow> \<not> fless ops y x"
    "fless ops x y \<Longrightarrow> \<not> feq ops x y"
    "fless ops x y \<Longrightarrow> fless ops y z \<Longrightarrow> fless ops x z"
    "feq ops x y \<Longrightarrow> fless ops y z \<Longrightarrow> fless ops x z"
    "fless ops x y \<Longrightarrow> feq ops y z \<Longrightarrow> fless ops x z"
  using assms(1)[unfolded float_order_def, rule_format, of x y z] assms(2-4) by blast+

lemma rank_cmp_keys:
  assumes "float_order ops" "\<not> fisnan ops (br_finalCapital a)" "\<not> fisnan ops (br_finalCapital b)"
  shows "rank_cmp ops a b \<longleftrightarrow>
     fless ops (br_finalCapital b) (br_finalCapital a) \<or>
     feq ops (br_finalCapital a) (br_finalCapital b) \<and> spread_before a b"
proof -
  have "\<not> feq ops (br_finalCapital a) (br_finalCapital b)"
    if "fless ops (br_finalCapital b) (br_finalCapital a)"
    using float_orderD(2)[OF assms(1,2,3,3)] float_orderD(6)[OF assms(1,3,2,2)] that by blast
  then show ?thesis
    by (auto simp: rank_cmp_def spread_before_def Let_def)
qed

lemma lex3_order:
  fixes d d' d'' s s' s'' l l' l'' :: int
  shows "\<not> (d < d \<or> d = d \<and> (s < s \<or> s = s \<and> l < l))"
    and "d' < d \<or> d = d' \<and> (s < s' \<or> s = s' \<and> l < l') \<Longrightarrow>
         d'' < d' \<or> d' = d'' \<and> (s' < s'' \<or> s' = s'' \<and> l' < l'') \<Longrightarrow>
         d'' < d \<or> d = d'' \<and> (s < s'' \<or> s = s'' \<and> l < l'')"
    and "(s, l) \<noteq> (s', l') \<Longrightarrow>
         (d' < d \<or> d = d' \<and> (s < s' \<or> s = s' \<and> l < l')) \<or>
         (d < d' \<or> d' = d \<and> (s' < s \<or> s' = s \<and> l' < l))"
    and "d' < d \<or> d = d' \<and> (s < s' \<or> s = s' \<and> l < l') \<Longrightarrow>
         \<not> (d < d' \<or> d' = d \<and> (s' < s \<or> s' = s \<and> l' < l))"
  by auto

lemma spread_before_order:
  "\<not> spread_before a a"
  "spread_before a b \<Longrightarrow> spread_before b c \<Longrightarrow> spread_before a c"
  "(br_s a, br_l a) \<noteq> (br_s b, br_l b) \<Longrightarrow> spread_before a b \<or> spread_before b a"
  "spread_before a b \<Longrightarrow> \<not> spread_before b a"
  unfolding spread_before_def
  by (rule lex3_order; assumption)+

lemma rank_cmp_irrefl:
  assumes "float_order ops" "\<not> fisnan ops (br_finalCapital a)"
  shows "\<not> rank_cmp ops a a"
  using float_orderD(5)[OF assms(1,2,2,2)] spread_before_order(1)[of a]
  by (auto simp: rank_cmp_keys[OF assms(1,2,2)])

lemma rank_cmp_trans:
  assumes fo: "float_order ops" and na: "\<not> fisnan ops (br_finalCapital a)"
    and nb: "\<not> fisnan ops (br_finalCapital b)" and nc: "\<not> fisnan ops (br_finalCapital c)"
    and ab: "rank_cmp ops a b" and bc: "rank_cmp ops b c"
  shows "rank_cmp ops a c"
proof -
  define x where "x = br_finalCapital a"
  define y where "y = br_finalCapital b"
  define z where "z = br_finalCapital c"
  have n: "\<not> fisnan ops x" "\<not> fisnan ops y" "\<not> fisnan ops z"
    using na nb nc by (simp_all add: x_def y_def z_def)
  have ab': "fless ops y x \<or> feq ops x y \<and> spread_before a b"
    using ab rank_cmp_keys[OF fo na nb] by (simp add: x_def y_def)
  have bc': "fless ops z y \<or> feq ops y z \<and> spread_before b c"
    using bc rank_cmp_keys[OF fo nb nc] by (simp add: y_def z_def)
  have goal: "rank_cmp ops a c \<longleftrightarrow> fless ops z x \<or> feq ops x z \<and> spread_before a c"
    using rank_cmp_keys[OF fo na nc] by (simp add: x_def z_def)
  consider (ll) "fless ops y x" "fless ops z y"
    | (le) "fless ops y x" "feq ops y z" "spread_before b c"
    | (el) "feq ops x y" "spread_before a b" "fless ops z y"
    | (ee) "feq ops x y" "spread_before a b" "feq ops y z" "spread_before b c"
    using ab' bc' by blast
  then show ?thesis
  proof cases
    case ll
    then have "fless ops z x"
      using float_orderD(7)[OF fo n(3,2,1)] by blast
    then show ?thesis using goal by simp
  next
    case le
    have "feq ops z y"
      using le(2) float_orderD(2)[OF fo n(2,3,3)] by blast
    then have "fless ops z x"
      using le(1) float_orderD(8)[OF fo n(3,2,1)] by blast
    then show ?thesis using goal by simp
  next
    case el
    have "feq ops y x"
      using el(1) float_orderD(2)[OF fo n(1,2,2)] by blast
    then have "fless ops z x"
      using el(3) float_orderD(9)[OF fo n(3,2,1)] by blast
    then show ?thesis using goal by simp
  next
    case ee
    have "feq ops x z"
      using ee(1,3) float_orderD(3)[OF fo n(1,2,3)] by blast
    moreover have "spread_before a c"
      using ee(2,4) spread_before_order(2) by blast
    ultimately show ?thesis using goal by simp
  qed
qed

lemma rank_cmp_total:
  assumes fo: "float_order ops" and na: "\<not> fisnan ops (br_finalCapital a)"
    and nb: "\<not> fisnan ops (br_finalCapital b)"
    and ne: "pair_of a \<noteq> pair_of b"
  shows "rank_cmp ops a b \<longleftrightarrow> \<not> rank_cmp ops b a"
proof -
  define x where "x = br_finalCapital a"
  define y where "y = br_finalCapital b"
  have n: "\<not> fisnan ops x" "\<not> fisnan ops y"
    using na nb by (simp_all add: x_def y_def)
  have ab: "rank_cmp ops a b \<longleftrightarrow> fless ops y x \<or> feq ops x y \<and> spread_before a b"
    using rank_cmp_keys[OF fo na nb] by (simp add: x_def y_def)
  have ba: "rank_cmp ops b a \<longleftrightarrow> fless ops x y \<or> feq ops y x \<and> spread_before b a"
    using rank_cmp_keys[OF fo nb na] by (simp add: x_def y_def)
  have sym: "feq ops x y \<longleftrightarrow> feq ops y x"
    using float_orderD(2)[OF fo n(1,2,2)] float_orderD(2)[OF fo n(2,1,1)] by blast
  have tri: "fless ops x y \<or> feq ops x y \<or> fless ops y x"
    using float_orderD(4)[OF fo n(1,2,2)] .
  have ex: "\<not> (fless ops x y \<and> fless ops y x)" "\<not> (fless ops x y \<and> feq ops x y)"
    "\<not> (fless ops y x \<and> feq ops y x)"
    using float_orderD(5,6)[OF fo n(1,2,2)] float_orderD(6)[OF fo n(2,1,1)] by blast+
  have sp: "spread_before a b \<longleftrightarrow> \<not> spread_before b a"
    using spread_before_order(3)[of a b] spread_before_order(4)[of a b]
      spread_before_order(4)[of b a] ne by (auto simp: pair_of_def)
  show ?thesis
    unfolding ab ba using sym tri ex sp by blast
qed

text \<open>Two lists ordered by an asymmetric relation, with the same elements, are equal.\<close>

lemma sorted_wrt_asym_unique:
  assumes "\<And>a b. a \<in> set ys \<Longrightarrow> b \<in> set ys \<Longrightarrow> R a b \<Longrightarrow> \<not> R b a"
    and "sorted_wrt R ys" "sorted_wrt R zs" "mset ys = mset zs"
  shows "ys = zs"
  using assms
proof (induction ys arbitrary: zs)
  case Nil
  then show ?case by simp
next
  case (Cons y ys)
  have "zs \<noteq> []"
    using Cons.prems(4) by auto
  then obtain z zs' where zs: "zs = z # zs'"
    by (cases zs) simp_all
  have sets: "set (y # ys) = set (z # zs')"
    using Cons.prems(4) unfolding zs by (rule mset_eq_setD)
  have yz: "y = z"
  proof (rule ccontr)
    assume ne: "y \<noteq> z"
    have "y \<in> set zs'" "z \<in> set ys"
      using sets ne by auto
    then have "R z y" "R y z"
      using Cons.prems(2,3) unfolding zs by simp_all
    moreover have "y \<in> set (y # ys)" "z \<in> set (y # ys)"
      using \<open>z \<in> set ys\<close> by simp_all
    ultimately show False
      using Cons.prems(1)[of y z] by blast
  qed
  have "ys = zs'"
  proof (rule Cons.IH)
    show "\<And>a b. a \<in> set ys \<Longrightarrow> b \<in> set ys \<Longrightarrow> R a b \<Longrightarrow> \<not> R b a"
      using Cons.prems(1) by simp
    show "sorted_wrt R ys" using Cons.prems(2) by simp
    show "sorted_wrt R zs'" using Cons.prems(3) unfolding zs by simp
    show "mset ys = mset zs'" using Cons.prems(4) unfolding zs yz by simp
  qed
  then show ?case
    using yz zs by simp
qed

lemma sorted_wrt_distinct_strict:
  assumes "distinct ys" "sorted_wrt Q ys"
    and "\<And>a b. a \<in> set ys \<Longrightarrow> b \<in> set ys \<Longrightarrow> a \<noteq> b \<Longrightarrow> Q a b \<Longrightarrow> R a b"
  shows "sorted_wrt R ys"
  using assms
proof (induction ys)
  case Nil
  then show ?case by simp
next
  case (Cons y ys)
  have "R y b" if "b \<in> set ys" for b
  proof -
    have "y \<noteq> b" "Q y b"
      using Cons.prems(1,2) that by auto
    then show ?thesis
      using Cons.prems(3)[of y b] that by simp
  qed
  moreover have "sorted_wrt R ys"
    using Cons.prems by (intro Cons.IH) simp_all
  ultimately show ?case
    by simp
qed

lemma rank_sorted_unique:
  assumes fo: "float_order ops"
    and nn: "\<forall>r \<in> set xs. \<not> fisnan ops (br_finalCapital r)"
    and d: "distinct (map pair_of xs)"
    and ys: "mset ys = mset xs" "rank_sorted ops ys"
    and zs: "mset zs = mset xs" "rank_sorted ops zs"
  shows "ys = zs"
proof -
  have dx: "distinct xs" and inj: "inj_on pair_of (set xs)"
    using d by (simp_all add: distinct_map)
  have strict: "sorted_wrt (rank_cmp ops) us" if us: "mset us = mset xs" "rank_sorted ops us" for us
  proof (rule sorted_wrt_distinct_strict[where Q = "\<lambda>a b. \<not> rank_cmp ops b a"])
    show "distinct us"
      using mset_eq_imp_distinct_iff[OF us(1)] dx by simp
    show "sorted_wrt (\<lambda>a b. \<not> rank_cmp ops b a) us"
      using us(2) by (simp add: rank_sorted_def)
    fix a b
    assume ab: "a \<in> set us" "b \<in> set us" "a \<noteq> b" "\<not> rank_cmp ops b a"
    have mem: "a \<in> set xs" "b \<in> set xs"
      using ab(1,2) mset_eq_setD[OF us(1)] by simp_all
    have ne: "pair_of a \<noteq> pair_of b"
      using inj mem ab(3) by (auto dest: inj_onD)
    show "rank_cmp ops a b"
      using rank_cmp_total[OF fo _ _ ne] nn mem ab(4) by blast
  qed
  show ?thesis
  proof (rule sorted_wrt_asym_unique[where R = "rank_cmp ops"])
    fix a b
    assume ab: "a \<in> set ys" "b \<in> set ys" "rank_cmp ops a b"
    have mem: "a \<in> set xs" "b \<in> set xs"
      using ab(1,2) mset_eq_setD[OF ys(1)] by simp_all
    show "\<not> rank_cmp ops b a"
    proof
      assume "rank_cmp ops b a"
      then have "rank_cmp ops a a"
        using rank_cmp_trans[OF fo _ _ _ ab(3)] nn mem by blast
      then show False
        using rank_cmp_irrefl[OF fo] nn mem by blast
    qed
  next
    show "sorted_wrt (rank_cmp ops) ys" using strict[OF ys] .
    show "sorted_wrt (rank_cmp ops) zs" using strict[OF zs] .
    show "mset ys = mset zs" using ys(1) zs(1) by simp
  qed
qed

text \<open>
  A NaN capital arises in the program: the position bought at the golden cross of index 6
  is sold at the last price, which is NaN.
\<close>

lemma nan_capital_2_4:
  "calcSMA xops nan_prices 2 \<bind> (\<lambda>smaS. calcSMA xops nan_prices 4 \<bind> (\<lambda>smaL.
     simulateWithCapitalRange xops nan_prices smaS smaL 0 7))
   = Some \<lparr>finalCapital = NaN, tradeCount = 2\<rparr>"
  by code_simp

lemma nan_capital_1_3:
  "calcSMA xops nan_prices 1 \<bind> (\<lambda>smaS. calcSMA xops nan_prices 3 \<bind> (\<lambda>smaL.
     simulateWithCapitalRange xops nan_prices smaS smaL 0 7))
   = Some \<lparr>finalCapital = NaN, tradeCount = 2\<rparr>"
  by code_simp

text \<open>
  C2, as stated: the comparator is a strict total order on results with distinct pairs of
  periods. It fails for results whose capital is NaN: \<^verbatim>\<open>a.finalCapital != b.finalCapital\<close>
  is then true and \<^verbatim>\<open>a.finalCapital > b.finalCapital\<close> false in both directions, so
  neither of two results with different periods comes before the other.
\<close>

theorem rank_cmp_nan_counterexample:
  "pair_of nan_result_2_4 \<noteq> pair_of nan_result_1_3 \<and>
   \<not> rank_cmp xops nan_result_2_4 nan_result_1_3 \<and>
   \<not> rank_cmp xops nan_result_1_3 nan_result_2_4"
  by code_simp

text \<open>
  C2, amended: on results whose capitals are not NaN and whose pairs of periods are
  distinct, the comparator orders by four keys in priority (higher capital; on equal
  capital the wider spread \<open>|s - l|\<close>; then the smaller \<open>s\<close>; then the smaller \<open>l\<close>); it is
  irreflexive and transitive, and of two different results exactly one comes before the
  other; hence any two orderings of the same results that \<^verbatim>\<open>std::sort\<close> may return for
  it are the same list.
\<close>

theorem rank_cmp_strict_total_order:
  assumes "float_order ops"
    and "\<forall>r \<in> set xs. \<not> fisnan ops (br_finalCapital r)"
    and "distinct (map pair_of xs)"
  shows "(\<forall>a \<in> set xs. \<forall>b \<in> set xs.
            rank_cmp ops a b \<longleftrightarrow>
              fless ops (br_finalCapital b) (br_finalCapital a) \<or>
              feq ops (br_finalCapital a) (br_finalCapital b) \<and> spread_before a b) \<and>
         (\<forall>a \<in> set xs. \<not> rank_cmp ops a a) \<and>
         (\<forall>a \<in> set xs. \<forall>b \<in> set xs. \<forall>c \<in> set xs.
            rank_cmp ops a b \<and> rank_cmp ops b c \<longrightarrow> rank_cmp ops a c) \<and>
         (\<forall>a \<in> set xs. \<forall>b \<in> set xs.
            a \<noteq> b \<longrightarrow> (rank_cmp ops a b \<longleftrightarrow> \<not> rank_cmp ops b a)) \<and>
         (\<forall>ys zs. mset ys = mset xs \<and> rank_sorted ops ys \<and>
                  mset zs = mset xs \<and> rank_sorted ops zs \<longrightarrow> ys = zs)"
proof (intro conjI ballI allI impI)
  fix a b
  assume "a \<in> set xs" "b \<in> set xs"
  then show "rank_cmp ops a b \<longleftrightarrow>
      fless ops (br_finalCapital b) (br_finalCapital a) \<or>
      feq ops (br_finalCapital a) (br_finalCapital b) \<and> spread_before a b"
    using rank_cmp_keys[OF assms(1), of a b] assms(2) by blast
next
  fix a
  assume "a \<in> set xs"
  then show "\<not> rank_cmp ops a a"
    using rank_cmp_irrefl[OF assms(1), of a] assms(2) by blast
next
  fix a b c
  assume "a \<in> set xs" "b \<in> set xs" "c \<in> set xs" "rank_cmp ops a b \<and> rank_cmp ops b c"
  then show "rank_cmp ops a c"
    using rank_cmp_trans[OF assms(1), of a b c] assms(2) by blast
next
  fix a b
  assume ab: "a \<in> set xs" "b \<in> set xs" "a \<noteq> b"
  have "inj_on pair_of (set xs)"
    using assms(3) by (simp add: distinct_map)
  then have "pair_of a \<noteq> pair_of b"
    using ab by (auto dest: inj_onD)
  then show "rank_cmp ops a b \<longleftrightarrow> \<not> rank_cmp ops b a"
    using rank_cmp_total[OF assms(1), of a b] assms(2) ab by blast
next
  fix ys zs
  assume "mset ys = mset xs \<and> rank_sorted ops ys \<and> mset zs = mset xs \<and> rank_sorted ops zs"
  then show "ys = zs"
    using rank_sorted_unique[OF assms, of ys zs] by blast
qed

text \<open>Of two results with the capital 10000, the wider spread comes first.\<close>

theorem rank_cmp_strict_total_order_witness:
  "float_order xops \<and>
   \<not> fisnan xops (br_finalCapital tie_narrow) \<and> \<not> fisnan xops (br_finalCapital tie_wide) \<and>
   distinct (map pair_of [tie_narrow, tie_wide]) \<and>
   rank_cmp xops tie_wide tie_narrow \<and> \<not> rank_cmp xops tie_narrow tie_wide \<and>
   \<not> rank_cmp xops tie_wide tie_wide \<and>
   rank_sorted xops [tie_wide, tie_narrow] \<and> \<not> rank_sorted xops [tie_narrow, tie_wide]"
proof -
  have h1: "float_order xops"
    by (rule float_order_xops)
  have n: "\<not> fisnan xops (br_finalCapital tie_narrow)" "\<not> fisnan xops (br_finalCapital tie_wide)"
    by (simp_all add: tie_narrow_def tie_wide_def xops_def xisnan_def)
  then have h2: "\<forall>r \<in> set [tie_narrow, tie_wide]. \<not> fisnan xops (br_finalCapital r)"
    by simp
  have h3: "distinct (map pair_of [tie_narrow, tie_wide])"
    by (simp add: tie_narrow_def tie_wide_def pair_of_def)
  have v: "rank_cmp xops tie_wide tie_narrow"
    by code_simp
  have ne: "tie_wide \<noteq> tie_narrow"
    by (simp add: tie_narrow_def tie_wide_def)
  note t = rank_cmp_strict_total_order[OF h1 h2 h3]
  have asym: "\<not> rank_cmp xops tie_narrow tie_wide"
    using t v ne by auto
  have irr: "\<not> rank_cmp xops tie_wide tie_wide"
    using t by auto
  have s1: "rank_sorted xops [tie_wide, tie_narrow]"
    using asym by (simp add: rank_sorted_def)
  have s2: "\<not> rank_sorted xops [tie_narrow, tie_wide]"
  proof
    assume s: "rank_sorted xops [tie_narrow, tie_wide]"
    have "mset [tie_narrow, tie_wide] = mset [tie_narrow, tie_wide] \<and>
        rank_sorted xops [tie_narrow, tie_wide] \<and>
        mset [tie_wide, tie_narrow] = mset [tie_narrow, tie_wide] \<and>
        rank_sorted xops [tie_wide, tie_narrow]"
      using s s1 by simp
    then have "[tie_narrow, tie_wide] = [tie_wide, tie_narrow]"
      using t by blast
    then show False
      using ne by simp
  qed
  show ?thesis
    using h1 n h3 v asym irr s1 s2 by (intro conjI)
qed

section \<open>Constant prices\<close>

text \<open>
  The arithmetic \<open>xops\<close> obeys the NaN laws, and every value of it is a constant price in
  the sense of \<open>flat_price\<close>: a difference \<open>c - c\<close> is 0 for a rational and NaN otherwise.
\<close>

lemma float_nan_laws_xops: "float_nan_laws xops"
  unfolding float_nan_laws_def
proof (intro conjI allI impI)
  show "fisnan xops (fnan xops)"
    by (simp add: xops_def xisnan_def)
next
  fix x y :: xdouble
  assume "fisnan xops x \<or> fisnan xops y"
  then show "fisnan xops (fadd xops x y)" "fisnan xops (fsub xops x y)"
    by (cases x; cases y; simp add: xops_def xisnan_def xsub_def)+
next
  fix x y :: xdouble
  assume "fisnan xops x"
  then show "fisnan xops (fdiv xops x y)"
    by (simp add: xops_def xisnan_def)
next
  fix x y :: xdouble
  show "\<not> (fless xops x y \<and> fless xops y x)"
    by (cases x; cases y; simp add: xops_def)
qed

lemma flat_price_xops: "flat_price xops c"
proof (cases c)
  case (Fin a)
  have "fsub xops c c = Fin 0"
    by (simp add: Fin xops_def xsub_def)
  moreover have "fadd xops x (Fin 0) = x" for x
    by (cases x) (simp_all add: xops_def)
  ultimately show ?thesis
    by (simp add: flat_price_def)
qed (simp_all add: flat_price_def xops_def xsub_def xisnan_def)

lemma first_sum_flat:
  "n \<le> N \<Longrightarrow> first_sum ops (replicate N c) n = flat_sum ops c n"
  by (simp add: first_sum_def flat_sum_def min_def)

lemma running_sum_flat_stable:
  assumes st: "\<forall>m. 0 < m \<longrightarrow> fadd ops (flat_sum ops c m) (fsub ops c c) = flat_sum ops c m"
    and n: "0 < n" "n \<le> N" and j: "j < N"
  shows "running_sum ops (replicate N c) n j = flat_sum ops c n"
  using j
proof (induction j)
  case 0
  then show ?case using n by (simp add: first_sum_flat)
next
  case (Suc j)
  then have IH: "running_sum ops (replicate N c) n j = flat_sum ops c n"
    by simp
  show ?case
  proof (cases "Suc j < n")
    case True
    then show ?thesis using n by (simp add: first_sum_flat)
  next
    case False
    have "replicate N c ! Suc j = c" "replicate N c ! (Suc j - n) = c"
      using Suc.prems by simp_all
    then show ?thesis
      using False IH st n(1) by simp
  qed
qed

lemma running_sum_flat_nan:
  assumes laws: "float_nan_laws ops" and z: "fisnan ops (fsub ops c c)"
    and n: "0 < n" and j: "n \<le> j" "j < N"
  shows "fisnan ops (running_sum ops (replicate N c) n j)"
proof -
  obtain k where k: "j = Suc k"
    using n j by (cases j) auto
  have "replicate N c ! Suc k = c" "replicate N c ! (Suc k - n) = c"
    using j k by simp_all
  moreover have "fisnan ops (fadd ops x (fsub ops c c))" for x
    using laws z unfolding float_nan_laws_def by blast
  ultimately show ?thesis
    using j k by simp
qed

lemma calcSMA_flat_steady:
  assumes laws: "float_nan_laws ops" and fp: "flat_price ops c"
  shows "\<exists>sma. calcSMA ops (replicate N c) n = Some sma \<and> length sma = N \<and> steady ops sma"
proof (cases "n < 1 \<or> int N < n")
  case True
  have "fisnan ops (fnan ops)"
    using laws by (simp add: float_nan_laws_def)
  then have "steady ops (replicate N (fnan ops))"
    by (simp add: steady_def)
  then show ?thesis
    using True calcSMA_invalid[of n "replicate N c" ops] by simp
next
  case False
  then have n: "1 \<le> n" "n \<le> int (length (replicate N c))"
    by simp_all
  obtain sma where sma: "calcSMA ops (replicate N c) n = Some sma" "length sma = N"
      "\<And>j. int j < n - 1 \<Longrightarrow> sma ! j = fnan ops"
      "\<And>j. n - 1 \<le> int j \<Longrightarrow> j < N \<Longrightarrow>
              sma ! j = fdiv ops (running_sum ops (replicate N c) (nat n) j) (fofint ops n)"
    using calcSMA_valid[OF n, of ops] by auto
  have nan: "fisnan ops (fnan ops)"
    using laws by (simp add: float_nan_laws_def)
  have "fisnan ops (sma ! i) \<or> fisnan ops (sma ! Suc i) \<or> sma ! i = sma ! Suc i"
    if i: "Suc i < N" for i
  proof (cases "int i < n - 1")
    case True
    then show ?thesis
      using sma(3)[of i] nan by simp
  next
    case ge: False
    from fp show ?thesis
      unfolding flat_price_def
    proof
      assume st: "\<forall>m. 0 < m \<longrightarrow> fadd ops (flat_sum ops c m) (fsub ops c c) = flat_sum ops c m"
      have pos: "0 < nat n" "nat n \<le> N" "i < N"
        using n i by simp_all
      have r1: "running_sum ops (replicate N c) (nat n) i = flat_sum ops c (nat n)"
        by (rule running_sum_flat_stable[OF st pos])
      have r2: "running_sum ops (replicate N c) (nat n) (Suc i) = flat_sum ops c (nat n)"
        by (rule running_sum_flat_stable[OF st pos(1,2) i])
      have "sma ! i = fdiv ops (running_sum ops (replicate N c) (nat n) i) (fofint ops n)"
        using sma(4)[of i] ge i by simp
      moreover have "sma ! Suc i
          = fdiv ops (running_sum ops (replicate N c) (nat n) (Suc i)) (fofint ops n)"
        using sma(4)[of "Suc i"] ge i by simp
      ultimately have "sma ! i = sma ! Suc i"
        unfolding r1 r2 by simp
      then show ?thesis by simp
    next
      assume z: "fisnan ops (fsub ops c c)"
      have "fisnan ops (running_sum ops (replicate N c) (nat n) (Suc i))"
        by (rule running_sum_flat_nan[OF laws z]) (use n ge i in simp_all)
      then have "fisnan ops
          (fdiv ops (running_sum ops (replicate N c) (nat n) (Suc i)) (fofint ops n))"
        using laws unfolding float_nan_laws_def by blast
      moreover have "sma ! Suc i
          = fdiv ops (running_sum ops (replicate N c) (nat n) (Suc i)) (fofint ops n)"
        using sma(4)[of "Suc i"] ge i by simp
      ultimately have "fisnan ops (sma ! Suc i)"
        by simp
      then show ?thesis by simp
    qed
  qed
  then have "steady ops sma"
    by (simp add: steady_def sma(2))
  then show ?thesis
    using sma(1,2) by simp
qed

lemma sim_step_steady:
  assumes laws: "float_nan_laws ops" and sS: "steady ops smaS" and sL: "steady ops smaL"
    and len: "length smaS = length prices" "length smaL = length prices"
    and i: "1 \<le> i" "i < int (length prices)"
  shows "sim_step ops prices smaS smaL startIdx i st = Some st"
proof -
  define k where "k = nat (i - 1)"
  have ik: "nat i = Suc k" "Suc k < length prices"
    using i by (simp_all add: k_def)
  have g: "vget smaS (i - 1) = Some (smaS ! k)" "vget smaL (i - 1) = Some (smaL ! k)"
    "vget smaS i = Some (smaS ! Suc k)" "vget smaL i = Some (smaL ! Suc k)"
    "vget prices i = Some (prices ! Suc k)"
    using i len ik by (simp_all add: vget_Some k_def)
  define dPrev where "dPrev = fsub ops (smaS ! k) (smaL ! k)"
  define dNow where "dNow = fsub ops (smaS ! Suc k) (smaL ! Suc k)"
  have sub_nan: "fisnan ops (fsub ops x y)" if "fisnan ops x \<or> fisnan ops y" for x y
    using laws that unfolding float_nan_laws_def by blast
  have asym: "\<not> (fless ops x y \<and> fless ops y x)" for x y
    using laws unfolding float_nan_laws_def by blast
  have cases: "fisnan ops dPrev \<or> fisnan ops dNow \<or> dPrev = dNow"
  proof -
    have "fisnan ops (smaS ! k) \<or> fisnan ops (smaS ! Suc k) \<or> smaS ! k = smaS ! Suc k"
      using sS ik len unfolding steady_def by simp
    moreover have "fisnan ops (smaL ! k) \<or> fisnan ops (smaL ! Suc k) \<or> smaL ! k = smaL ! Suc k"
      using sL ik len unfolding steady_def by simp
    ultimately show ?thesis
      unfolding dPrev_def dNow_def using sub_nan by metis
  qed
  have no_cross: "\<not> (fless ops dPrev (fofint ops 0) \<and> fless ops (fofint ops 0) dNow)"
    "\<not> (fless ops (fofint ops 0) dPrev \<and> fless ops dNow (fofint ops 0))"
    if "\<not> fisnan ops dPrev" "\<not> fisnan ops dNow"
    using cases that asym by auto
  show ?thesis
    using g no_cross
    by (auto simp: sim_step_def Let_def dPrev_def[symmetric] dNow_def[symmetric])
qed

lemma sim_loop_steady:
  assumes "float_nan_laws ops" "steady ops smaS" "steady ops smaL"
    and "length smaS = length prices" "length smaL = length prices"
    and "1 \<le> i" "endIdx < int (length prices)"
  shows "sim_loop ops prices smaS smaL startIdx endIdx i st = Some st"
  using assms
proof (induction ops prices smaS smaL startIdx endIdx i st rule: sim_loop.induct)
  case (1 ops prices smaS smaL startIdx endIdx i st)
  note IH = "1.IH" and prems = "1.prems"
  show ?case
  proof (cases "i \<le> endIdx")
    case False
    then show ?thesis
      by (subst sim_loop.simps) simp
  next
    case True
    have step: "sim_step ops prices smaS smaL startIdx i st = Some st"
      using sim_step_steady[OF prems(1-6)] True prems(7) by simp
    have "sim_loop ops prices smaS smaL startIdx endIdx (i + 1) st = Some st"
      using prems by (intro IH[OF True step]) simp_all
    then show ?thesis
      using True step by (subst sim_loop.simps) simp
  qed
qed

lemma simulate_steady:
  assumes "float_nan_laws ops" "steady ops smaS" "steady ops smaL"
    and "length smaS = length prices" "length smaL = length prices"
  shows "simulateWithCapitalRange ops prices smaS smaL startIdx endIdx
     = Some \<lparr>finalCapital = INITIAL ops, tradeCount = 0\<rparr>"
proof (cases "clamp_start startIdx < clamp_end (int (length prices)) endIdx")
  case False
  then show ?thesis
    by (auto simp: simulateWithCapitalRange_def Let_def)
next
  case True
  note b = clamp_bounds[OF True]
  have "sim_loop ops prices smaS smaL (first_day (clamp_start startIdx))
      (clamp_end (int (length prices)) endIdx) (first_day (clamp_start startIdx)) (st0 ops)
      = Some (st0 ops)"
    using sim_loop_steady[OF assms b(1) b(3)] .
  then show ?thesis
    by (simp add: simulate_unfold[OF True] liquidate_def st0_def)
qed

text \<open>
  C8. For a series of \<open>N\<close> equal prices \<open>c\<close> and any two periods, the moving averages
  are computed, no iteration of the simulator changes any state (no crossover triggers),
  and over any index range the simulator returns the initial capital 10000 and the trade
  count 0, with no purchase counted. The arithmetic is any that obeys the NaN laws, and
  \<open>c\<close> any constant price of it.
\<close>

theorem flat_series_no_trade:
  assumes "float_nan_laws ops" and "flat_price ops c"
  shows "\<exists>smaS smaL.
           calcSMA ops (replicate N c) shortP = Some smaS \<and>
           calcSMA ops (replicate N c) longP = Some smaL \<and>
           (\<forall>i first st. 1 \<le> i \<and> i < int N \<longrightarrow>
              sim_step ops (replicate N c) smaS smaL first i st = Some st) \<and>
           simulateWithCapitalRange ops (replicate N c) smaS smaL startIdx endIdx
             = Some \<lparr>finalCapital = fofint ops 10000, tradeCount = 0\<rparr> \<and>
           simulate_buys ops (replicate N c) smaS smaL startIdx endIdx = Some 0"
proof -
  obtain smaS where smaS: "calcSMA ops (replicate N c) shortP = Some smaS"
      "length smaS = N" "steady ops smaS"
    using calcSMA_flat_steady[OF assms, of N shortP] by blast
  obtain smaL where smaL: "calcSMA ops (replicate N c) longP = Some smaL"
      "length smaL = N" "steady ops smaL"
    using calcSMA_flat_steady[OF assms, of N longP] by blast
  have len: "length smaS = length (replicate N c)" "length smaL = length (replicate N c)"
    using smaS(2) smaL(2) by simp_all
  have step: "sim_step ops (replicate N c) smaS smaL first i st = Some st"
    if "1 \<le> i \<and> i < int N" for i first st
    using sim_step_steady[OF assms(1) smaS(3) smaL(3) len, of i first st] that by simp
  have sim: "simulateWithCapitalRange ops (replicate N c) smaS smaL startIdx endIdx
      = Some \<lparr>finalCapital = fofint ops 10000, tradeCount = 0\<rparr>"
    using simulate_steady[OF assms(1) smaS(3) smaL(3) len, of startIdx endIdx]
    by (simp add: INITIAL_def)
  have "simulate_buys ops (replicate N c) smaS smaL startIdx endIdx = Some 0"
    using simulate_trades[OF sim] by simp
  then show ?thesis
    using smaS(1) smaL(1) step sim by blast
qed

theorem flat_series_no_trade_witness:
  "float_nan_laws xops \<and> flat_price xops (Fin 10) \<and>
   (\<exists>smaS smaL.
      calcSMA xops (replicate 6 (Fin 10)) 2 = Some smaS \<and>
      calcSMA xops (replicate 6 (Fin 10)) 4 = Some smaL \<and>
      simulateWithCapitalRange xops (replicate 6 (Fin 10)) smaS smaL 0 5
        = Some \<lparr>finalCapital = fofint xops 10000, tradeCount = 0\<rparr>)"
proof -
  have h1: "float_nan_laws xops"
    by (rule float_nan_laws_xops)
  have h2: "flat_price xops (Fin 10)"
    by (rule flat_price_xops)
  show ?thesis
    using h1 h2 flat_series_no_trade[OF h1 h2, of 6 2 4 0 5] by blast
qed

end
